theory Spec2Isabelle
  imports Complex_Main
begin

section \<open>Python values used by the character-level RNN notebook\<close>

text \<open>
  The notebook \<open>2_Character_Model_with_Basic_RNN\<close> is a linear script over a few global
  variables (\<open>text\<close>, \<open>chars\<close>, \<open>int2char\<close>, \<open>char2int\<close>, \<open>maxlen\<close>, \<open>input_seq\<close>,
  \<open>target_seq\<close>, \<open>dict_size\<close>, \<open>seq_len\<close>, \<open>batch_size\<close>) and three functions
  (\<open>one_hot_encode\<close>, \<open>predict\<close>, \<open>sample\<close>). Each cell becomes a function of the globals it
  reads. A Python exception is a value of type \<open>error\<close>; a computation that may raise
  returns \<open>error + 'a\<close>, with \<open>Inl\<close> for the exception.

  A Python string is a list of characters. A \<open>char\<close> stands for the Unicode code point of
  the same number, so the strings covered are those over U+0000 .. U+00FF.
\<close>

datatype error =
    KeyError              \<comment> \<open>\<open>d[k]\<close> on a dict without the key \<open>k\<close>\<close>
  | IndexError            \<comment> \<open>a list or array index out of range\<close>
  | OverflowError         \<comment> \<open>an array index that does not fit a machine integer\<close>
  | ValueError            \<comment> \<open>\<open>max\<close> of an empty sequence, a negative or too large array dimension\<close>
  | EmptySequenceError    \<comment> \<open>the network applied to a sequence of zero time steps\<close>

subsection \<open>Dictionaries\<close>

text \<open>
  A Python dict keeps its keys in insertion order; storing under an existing key replaces
  the value in place, storing under a new key appends.
\<close>

type_synonym ('k, 'v) dict = "('k \<times> 'v) list"

primrec dict_set :: "'k \<Rightarrow> 'v \<Rightarrow> ('k, 'v) dict \<Rightarrow> ('k, 'v) dict" where
  "dict_set k v [] = [(k, v)]"
| "dict_set k v (p # ps) = (if fst p = k then (k, v) # ps else p # dict_set k v ps)"

definition dict_get :: "('k, 'v) dict \<Rightarrow> 'k \<Rightarrow> error + 'v" where
  \<comment> \<open>\<open>d[k]\<close>\<close>
  "dict_get d k = (case map_of d k of None \<Rightarrow> Inl KeyError | Some v \<Rightarrow> Inr v)"

definition dict_of_pairs :: "('k \<times> 'v) list \<Rightarrow> ('k, 'v) dict" where
  \<comment> \<open>\<open>dict(pairs)\<close> and \<open>{k: v for ...}\<close>: the pairs are stored one after the other\<close>
  "dict_of_pairs ps = fold (\<lambda>(k, v) d. dict_set k v d) ps []"

definition dict_len :: "('k, 'v) dict \<Rightarrow> nat" where
  "dict_len d = length d"

subsection \<open>The vocabulary: \<open>chars\<close>, \<open>int2char\<close>, \<open>char2int\<close>\<close>

text \<open>
  \<^verbatim>\<open>chars = set("".join(text))\<close>
  \<^verbatim>\<open>int2char = dict(enumerate(chars))\<close>
  \<^verbatim>\<open>char2int = {char: ind for ind, char in int2char.items()}\<close>

  Python does not fix the order in which a set is iterated. \<open>enumerate(chars)\<close> visits every
  element of the set once, in some order: the list \<open>order\<close> below, which is any list with
  \<open>iteration_of (chars_of text) order\<close>.
\<close>

definition chars_of :: "string list \<Rightarrow> char set" where
  "chars_of text = set (concat text)"

definition iteration_of :: "'a set \<Rightarrow> 'a list \<Rightarrow> bool" where
  "iteration_of S xs \<longleftrightarrow> distinct xs \<and> set xs = S"

record vocab =
  int2char :: "(nat, char) dict"
  char2int :: "(char, nat) dict"

definition build_vocab :: "char list \<Rightarrow> vocab" where
  "build_vocab order =
     (let i2c = dict_of_pairs (enumerate 0 order);
          c2i = dict_of_pairs (map (\<lambda>(ind, ch). (ch, ind)) i2c)
      in \<lparr>int2char = i2c, char2int = c2i\<rparr>)"

definition dict_size :: "vocab \<Rightarrow> nat" where
  \<comment> \<open>\<open>dict_size = len(char2int)\<close>\<close>
  "dict_size v = dict_len (char2int v)"

subsection \<open>Sequencing computations that may raise\<close>

definition bind_err :: "error + 'a \<Rightarrow> ('a \<Rightarrow> error + 'b) \<Rightarrow> error + 'b" where
  "bind_err r f = (case r of Inl e \<Rightarrow> Inl e | Inr x \<Rightarrow> f x)"

primrec for_each :: "'i list \<Rightarrow> ('i \<Rightarrow> 's \<Rightarrow> error + 's) \<Rightarrow> 's \<Rightarrow> error + 's" where
  \<comment> \<open>a \<open>for\<close> loop over the items, threading the state; the first exception ends it\<close>
  "for_each [] body s = Inr s"
| "for_each (x # xs) body s = bind_err (body x s) (for_each xs body)"

primrec map_err :: "('a \<Rightarrow> error + 'b) \<Rightarrow> 'a list \<Rightarrow> error + 'b list" where
  \<comment> \<open>a list comprehension whose element expression may raise\<close>
  "map_err f [] = Inr []"
| "map_err f (x # xs) =
     bind_err (f x) (\<lambda>y. bind_err (map_err f xs) (\<lambda>ys. Inr (y # ys)))"

definition py_range :: "int \<Rightarrow> nat list" where
  \<comment> \<open>\<open>range(n)\<close> is empty for \<open>n \<le> 0\<close>\<close>
  "py_range n = [0..<nat n]"

definition list_get :: "'a list \<Rightarrow> nat \<Rightarrow> error + 'a" where
  \<comment> \<open>\<open>xs[i]\<close> for an index \<open>i \<ge> 0\<close>\<close>
  "list_get xs i = (if i < length xs then Inr (xs ! i) else Inl IndexError)"

subsection \<open>Padding: \<open>maxlen\<close> and the padding loop\<close>

text \<open>
  \<^verbatim>\<open>maxlen = len(max(text, key=len))\<close>
  \<open>max\<close> raises ValueError on an empty list and keeps the first of several longest strings.
\<close>

primrec max_by_len :: "string \<Rightarrow> string list \<Rightarrow> string" where
  "max_by_len best [] = best"
| "max_by_len best (s # ss) = max_by_len (if length best < length s then s else best) ss"

definition maxlen_of :: "string list \<Rightarrow> error + nat" where
  "maxlen_of text =
     (case text of [] \<Rightarrow> Inl ValueError | s # ss \<Rightarrow> Inr (length (max_by_len s ss)))"

text \<open>
  \<^verbatim>\<open>for i in range(len(text)):\<close>
  \<^verbatim>\<open>    while len(text[i]) < maxlen:\<close>
  \<^verbatim>\<open>        text[i] += " "\<close>
\<close>

function pad_one :: "nat \<Rightarrow> string \<Rightarrow> string" where
  "pad_one maxlen s = (if length s < maxlen then pad_one maxlen (s @ '' '') else s)"
  by pat_completeness auto
termination
  by (relation "measure (\<lambda>(maxlen, s). maxlen - length s)") auto

declare pad_one.simps [simp del]

definition pad :: "string list \<Rightarrow> nat \<Rightarrow> error + string list" where
  "pad text maxlen =
     for_each (py_range (int (length text))) (\<lambda>i text.
       bind_err (list_get text i) (\<lambda>s. Inr (text[i := pad_one maxlen s]))) text"

subsection \<open>Input and target sequences\<close>

text \<open>
  \<^verbatim>\<open>input_seq.append(text[i][:-1])\<close>
  \<^verbatim>\<open>target_seq.append(text[i][1:])\<close>
  \<^verbatim>\<open>input_seq[i] = [char2int[character] for character in input_seq[i]]\<close>
  \<^verbatim>\<open>target_seq[i] = [char2int[character] for character in target_seq[i]]\<close>
\<close>

definition input_seq_of :: "string list \<Rightarrow> string list" where
  "input_seq_of text = map (\<lambda>s. take (length s - 1) s) text"

definition target_seq_of :: "string list \<Rightarrow> string list" where
  "target_seq_of text = map (drop 1) text"

definition encode_chars :: "vocab \<Rightarrow> string \<Rightarrow> error + int list" where
  "encode_chars v s = map_err (\<lambda>c. bind_err (dict_get (char2int v) c) (\<lambda>k. Inr (int k))) s"

definition encode_seqs ::
  "vocab \<Rightarrow> string list \<Rightarrow> string list \<Rightarrow> error + (int list \<times> int list) list" where
  "encode_seqs v inp tgt =
     map_err (\<lambda>(a, b). bind_err (encode_chars v a) (\<lambda>x.
                        bind_err (encode_chars v b) (\<lambda>y. Inr (x, y)))) (zip inp tgt)"

subsection \<open>The feature array and \<open>one_hot_encode\<close>\<close>

text \<open>
  A three-axis numpy array is its shape and its cells, a list (axis 0) of lists (axis 1) of
  lists (axis 2). The cells are float32 numbers; the only values stored are 0 and 1, which
  float32 represents exactly.

  \<open>np.zeros\<close> raises ValueError for a negative dimension and for an array beyond numpy's
  size limit: the item size (4 bytes) times the dimensions that are not zero must fit a
  signed 64-bit integer. Whether the machine has the memory for an array within that limit
  is outside the model.

  An integer index is first converted to a signed 64-bit machine integer (OverflowError
  if it does not fit); along an axis of length \<open>n\<close> it may then be negative, and counts from
  the end; outside \<open>[-n, n)\<close> it raises IndexError.

  \<^verbatim>\<open>def one_hot_encode(sequence, dict_size, seq_len, batch_size):\<close>
  \<^verbatim>\<open>    features = np.zeros((batch_size, seq_len, dict_size), dtype=np.float32)\<close>
  \<^verbatim>\<open>    for i in range(batch_size):\<close>
  \<^verbatim>\<open>        for u in range(seq_len):\<close>
  \<^verbatim>\<open>            features[i, u, sequence[i][u]] = 1\<close>
  \<^verbatim>\<open>    return features\<close>
\<close>

record ndarray =
  shape :: "nat \<times> nat \<times> nat"
  cells :: "real list list list"

definition np_nbytes :: "int \<Rightarrow> int \<Rightarrow> int \<Rightarrow> int" where
  \<comment> \<open>the size numpy checks: 4 bytes per float32, times every dimension that is not zero\<close>
  "np_nbytes b s d =
     4 * (if b = 0 then 1 else b) * (if s = 0 then 1 else s) * (if d = 0 then 1 else d)"

definition np_zeros :: "int \<Rightarrow> int \<Rightarrow> int \<Rightarrow> error + ndarray" where
  "np_zeros b s d =
     (if b < 0 \<or> s < 0 \<or> d < 0 then Inl ValueError
      else if 2 ^ 63 \<le> np_nbytes b s d then Inl ValueError
      else Inr \<lparr>shape = (nat b, nat s, nat d),
                cells = replicate (nat b) (replicate (nat s) (replicate (nat d) 0))\<rparr>)"

definition c_long :: "int \<Rightarrow> bool" where
  \<comment> \<open>the integer fits a signed 64-bit machine integer\<close>
  "c_long k \<longleftrightarrow> - (2 ^ 63) \<le> k \<and> k < 2 ^ 63"

definition np_index :: "nat \<Rightarrow> int \<Rightarrow> error + nat" where
  "np_index n k =
     (if \<not> c_long k then Inl OverflowError
      else if 0 \<le> k \<and> k < int n then Inr (nat k)
      else if - int n \<le> k \<and> k < 0 then Inr (nat (k + int n))
      else Inl IndexError)"

definition np_setitem :: "ndarray \<Rightarrow> int \<Rightarrow> int \<Rightarrow> int \<Rightarrow> real \<Rightarrow> error + ndarray" where
  \<comment> \<open>\<open>a[i, u, k] = x\<close>\<close>
  "np_setitem a i u k x =
     (case shape a of (b, s, d) \<Rightarrow>
        bind_err (np_index b i) (\<lambda>i'.
        bind_err (np_index s u) (\<lambda>u'.
        bind_err (np_index d k) (\<lambda>k'.
          Inr (a\<lparr>cells := (cells a)[i' := (cells a ! i')[u' := (cells a ! i' ! u')[k' := x]]]\<rparr>)))))"

definition one_hot_encode :: "int list list \<Rightarrow> int \<Rightarrow> int \<Rightarrow> int \<Rightarrow> error + ndarray" where
  "one_hot_encode sequence dict_sz seq_len batch_size =
     bind_err (np_zeros batch_size seq_len dict_sz) (\<lambda>features.
       for_each (py_range batch_size) (\<lambda>i.
         for_each (py_range seq_len) (\<lambda>u features.
           bind_err (list_get sequence i) (\<lambda>row.
           bind_err (list_get row u) (\<lambda>k.
             np_setitem features (int i) (int u) k 1)))) features)"

text \<open>The one-hot vector of length \<open>d\<close> for an index \<open>k\<close> that numpy accepts, and what the
  claims call a one-hot slice.\<close>

definition one_hot :: "nat \<Rightarrow> int \<Rightarrow> real list" where
  "one_hot d k = (replicate d 0)[nat (if k < 0 then k + int d else k) := 1]"

definition is_one_hot :: "real list \<Rightarrow> bool" where
  "is_one_hot row \<longleftrightarrow> count_list row 1 = 1 \<and> count_list row 0 = length row - 1"

definition visited_ok :: "int list list \<Rightarrow> nat \<Rightarrow> nat \<Rightarrow> nat \<Rightarrow> bool" where
  \<comment> \<open>position \<open>(i, u)\<close> exists in the input and holds an index numpy accepts on an axis of length \<open>d\<close>\<close>
  "visited_ok sequence d i u \<longleftrightarrow>
     i < length sequence \<and> u < length (sequence ! i) \<and>
     - int d \<le> sequence ! i ! u \<and> sequence ! i ! u < int d"

text \<open>
  Names for the proofs: the body of the inner loop; the exception, if any, that the body
  raises at position \<open>(i, u)\<close>; the first exception over a list of positions; and the cells
  after the inner loop has filled the first \<open>n\<close> slots of row \<open>i\<close>, and after the outer loop
  has filled the first \<open>m\<close> rows.
\<close>

definition slot_error :: "int list list \<Rightarrow> nat \<Rightarrow> nat \<Rightarrow> nat \<Rightarrow> error option" where
  "slot_error sequence d i u =
     (if \<not> (i < length sequence \<and> u < length (sequence ! i)) then Some IndexError
      else if \<not> c_long (sequence ! i ! u) then Some OverflowError
      else if - int d \<le> sequence ! i ! u \<and> sequence ! i ! u < int d then None
      else Some IndexError)"

primrec first_error :: "('a \<Rightarrow> error option) \<Rightarrow> 'a list \<Rightarrow> error option" where
  "first_error f [] = None"
| "first_error f (x # xs) = (case f x of Some e \<Rightarrow> Some e | None \<Rightarrow> first_error f xs)"

definition enc_row :: "int list list \<Rightarrow> nat \<Rightarrow> nat \<Rightarrow> nat \<Rightarrow> nat \<Rightarrow> real list list" where
  "enc_row sequence d s i n =
     map (\<lambda>u. if u < n then one_hot d (sequence ! i ! u) else replicate d 0) [0..<s]"

definition enc_cells :: "int list list \<Rightarrow> nat \<Rightarrow> nat \<Rightarrow> nat \<Rightarrow> nat \<Rightarrow> real list list list" where
  "enc_cells sequence d s b m =
     map (\<lambda>i. if i < m then enc_row sequence d s i s else replicate s (replicate d 0)) [0..<b]"

definition set_slot :: "int list list \<Rightarrow> nat \<Rightarrow> nat \<Rightarrow> ndarray \<Rightarrow> error + ndarray" where
  "set_slot sequence i u features =
     bind_err (list_get sequence i) (\<lambda>row.
     bind_err (list_get row u) (\<lambda>k.
       np_setitem features (int i) (int u) k 1))"

subsection \<open>The notebook's data preparation, cell by cell\<close>

record prepared =
  p_vocab :: vocab
  p_text :: "string list"
  p_input_chars :: "string list"
  p_target_chars :: "string list"
  p_input_seq :: "int list list"
  p_target_seq :: "int list list"
  p_dict_size :: int
  p_seq_len :: int
  p_batch_size :: int
  p_features :: ndarray

definition prepare :: "char list \<Rightarrow> string list \<Rightarrow> error + prepared" where
  "prepare order text =
     (let v = build_vocab order in
      bind_err (maxlen_of text) (\<lambda>maxlen.
      bind_err (pad text maxlen) (\<lambda>text'.
        let inp = input_seq_of text';
            tgt = target_seq_of text'
        in bind_err (encode_seqs v inp tgt) (\<lambda>enc.
             let dsz = int (dict_size v);
                 seq_len = int maxlen - 1;
                 batch_size = int (length text')
             in bind_err (one_hot_encode (map fst enc) dsz seq_len batch_size) (\<lambda>features.
                  Inr \<lparr>p_vocab = v, p_text = text', p_input_chars = inp, p_target_chars = tgt,
                       p_input_seq = map fst enc, p_target_seq = map snd enc,
                       p_dict_size = dsz, p_seq_len = seq_len, p_batch_size = batch_size,
                       p_features = features\<rparr>)))))"

subsection \<open>\<open>predict\<close> and \<open>sample\<close>\<close>

text \<open>
  \<open>str.lower\<close> on the code points U+0000 .. U+00FF: the letters A .. Z and the Latin-1
  capitals U+00C0 .. U+00DE (without the multiplication sign U+00D7) move up by 32; every
  other character stays.
\<close>

definition lower_char :: "char \<Rightarrow> char" where
  "lower_char c =
     (let n = (of_char c :: nat)
      in if (65 \<le> n \<and> n \<le> 90) \<or> (192 \<le> n \<and> n \<le> 222 \<and> n \<noteq> 215)
         then char_of (n + 32) else c)"

definition lower :: "string \<Rightarrow> string" where
  "lower s = map lower_char s"

text \<open>
  The network (\<open>model\<close>, an \<open>nn.Module\<close>), the softmax and the arg-max over its last output
  row are floating-point code of the PyTorch library. They enter as a parameter: the index
  chosen for a feature array. The network's output has one row per batch element and time
  step and \<open>out[-1]\<close> selects the last one, so an input without time steps has no row to
  select and the call fails.

  \<^verbatim>\<open>def predict(model, character):\<close>
  \<^verbatim>\<open>    character = np.array([[char2int[c] for c in character]])\<close>
  \<^verbatim>\<open>    character = one_hot_encode(character, dict_size, character.shape[1], 1)\<close>
  \<^verbatim>\<open>    out, hidden = model(character)\<close>
  \<^verbatim>\<open>    prob = nn.functional.softmax(out[-1], dim=0).data\<close>
  \<^verbatim>\<open>    char_ind = torch.max(prob, dim=0)[1].item()\<close>
  \<^verbatim>\<open>    return int2char[char_ind], hidden\<close>

  \<open>sample\<close> drops the hidden state that \<open>predict\<close> returns, and so does the model here.

  \<^verbatim>\<open>def sample(model, out_len, start="hey"):\<close>
  \<^verbatim>\<open>    start = start.lower()\<close>
  \<^verbatim>\<open>    chars = [ch for ch in start]\<close>
  \<^verbatim>\<open>    size = out_len - len(chars)\<close>
  \<^verbatim>\<open>    for ii in range(size):\<close>
  \<^verbatim>\<open>        char, h = predict(model, chars)\<close>
  \<^verbatim>\<open>        chars.append(char)\<close>
  \<^verbatim>\<open>    return "".join(chars)\<close>
\<close>

type_synonym model = "ndarray \<Rightarrow> nat"

definition char_ind_of :: "model \<Rightarrow> ndarray \<Rightarrow> error + nat" where
  "char_ind_of m character =
     (case shape character of (b, t, d) \<Rightarrow>
        if b * t = 0 then Inl EmptySequenceError else Inr (m character))"

definition predict :: "vocab \<Rightarrow> model \<Rightarrow> string \<Rightarrow> error + char" where
  "predict v m character =
     bind_err (encode_chars v character) (\<lambda>idx.
     bind_err (one_hot_encode [idx] (int (dict_size v)) (int (length idx)) 1) (\<lambda>features.
     bind_err (char_ind_of m features) (\<lambda>char_ind.
       dict_get (int2char v) char_ind)))"

definition sample :: "vocab \<Rightarrow> model \<Rightarrow> int \<Rightarrow> string \<Rightarrow> error + string" where
  "sample v m out_len start =
     (let start' = lower start;
          chars = start';
          size = out_len - int (length chars)
      in for_each (py_range size) (\<lambda>ii chars.
           bind_err (predict v m chars) (\<lambda>char. Inr (chars @ [char]))) chars)"

subsection \<open>The notebook's corpus\<close>

text \<open>
  \<^verbatim>\<open>text = ["hey how are you", "good i am fine", "have a nice day"]\<close>
  and the order in which the recorded run of the notebook iterated \<open>chars\<close> (the printed
  \<open>int2char\<close>).
\<close>

definition notebook_text :: "string list" where
  "notebook_text = [''hey how are you'', ''good i am fine'', ''have a nice day'']"

definition notebook_order :: "char list" where
  "notebook_order = ''fwudochmevirnayg ''"

section \<open>Properties\<close>

subsection \<open>Dictionaries built from pairs with distinct keys\<close>

lemma dict_set_fresh: "k \<notin> fst ` set d \<Longrightarrow> dict_set k v d = d @ [(k, v)]"
  by (induction d) auto

lemma fold_dict_set_distinct:
  "distinct (map fst (acc @ ps)) \<Longrightarrow> fold (\<lambda>(k, v) d. dict_set k v d) ps acc = acc @ ps"
proof (induction ps arbitrary: acc)
  case Nil
  then show ?case by simp
next
  case (Cons p ps)
  obtain k v where p: "p = (k, v)" by (cases p)
  from Cons.prems p have fresh: "k \<notin> fst ` set acc" by auto
  from Cons.prems p have "distinct (map fst ((acc @ [(k, v)]) @ ps))" by simp
  from Cons.IH [OF this] show ?case
    using p fresh by (simp add: dict_set_fresh)
qed

lemma dict_of_pairs_distinct: "distinct (map fst ps) \<Longrightarrow> dict_of_pairs ps = ps"
  using fold_dict_set_distinct [of "[]" ps] by (simp add: dict_of_pairs_def)

lemma map_fst_enumerate: "map fst (enumerate n xs) = [n..<n + length xs]"
  by (simp add: enumerate_eq_zip)

lemma int2char_build: "int2char (build_vocab order) = enumerate 0 order"
  by (simp add: build_vocab_def Let_def dict_of_pairs_distinct map_fst_enumerate)

lemma char2int_build:
  assumes "distinct order"
  shows "char2int (build_vocab order) = zip order [0..<length order]"
proof -
  have swap: "map (\<lambda>(ind, ch). (ch, ind)) (enumerate 0 order) = zip order [0..<length order]"
    by (simp add: enumerate_eq_zip zip_commute [of order] case_prod_unfold)
  have "distinct (map fst (zip order [0..<length order]))"
    using assms by simp
  then show ?thesis
    by (simp add: build_vocab_def Let_def dict_of_pairs_distinct map_fst_enumerate swap)
qed

lemma dict_size_build: "distinct order \<Longrightarrow> dict_size (build_vocab order) = length order"
  by (simp add: dict_size_def dict_len_def char2int_build)

lemma int2char_get:
  "dict_get (int2char (build_vocab order)) i =
     (if i < length order then Inr (order ! i) else Inl KeyError)"
proof (cases "i < length order")
  case True
  have "map_of (zip [0..<length order] order) ([0..<length order] ! i) = Some (order ! i)"
    using True by (intro map_of_zip_nth) simp_all
  then show ?thesis
    using True by (simp add: dict_get_def int2char_build enumerate_eq_zip)
next
  case False
  then have "i \<notin> fst ` set (enumerate 0 order)"
    by (auto simp: in_set_enumerate_eq)
  then have "map_of (enumerate 0 order) i = None"
    by (simp add: map_of_eq_None_iff)
  then show ?thesis
    using False by (simp add: dict_get_def int2char_build)
qed

lemma char2int_get_nth:
  assumes "distinct order" and "i < length order"
  shows "dict_get (char2int (build_vocab order)) (order ! i) = Inr i"
proof -
  have "map_of (zip order [0..<length order]) (order ! i) = Some ([0..<length order] ! i)"
    using assms by (intro map_of_zip_nth) simp_all
  then show ?thesis
    using assms by (simp add: dict_get_def char2int_build)
qed

lemma char2int_get_absent:
  assumes "distinct order" and "c \<notin> set order"
  shows "dict_get (char2int (build_vocab order)) c = Inl KeyError"
proof -
  have "c \<notin> fst ` set (zip order [0..<length order])"
    using assms(2) by (auto dest: set_zip_leftD)
  then have "map_of (zip order [0..<length order]) c = None"
    by (simp add: map_of_eq_None_iff)
  then have "dict_get (zip order [0..<length order]) c = Inl KeyError"
    unfolding dict_get_def by (simp only: option.case)
  then show ?thesis
    using assms(1) by (simp only: char2int_build)
qed

lemma char2int_get_member:
  assumes "distinct order" and "c \<in> set order"
  shows "\<exists>i < length order. order ! i = c \<and> dict_get (char2int (build_vocab order)) c = Inr i"
proof -
  from assms(2) obtain i where "i < length order" "order ! i = c"
    by (auto simp: in_set_conv_nth)
  with char2int_get_nth [OF assms(1), of i] show ?thesis by auto
qed

subsection \<open>What \<open>one_hot_encode\<close> computes\<close>

lemma bind_err_simps [simp]:
  "bind_err (Inl e) f = Inl e"
  "bind_err (Inr x) f = f x"
  by (simp_all add: bind_err_def)

lemma for_each_append:
  "for_each (xs @ ys) body s = bind_err (for_each xs body s) (for_each ys body)"
  by (induction xs arbitrary: s) (auto simp: bind_err_def split: sum.splits)

lemma np_nbytes_bounds:
  assumes "0 \<le> b" and "0 \<le> s" and "0 \<le> d" and "np_nbytes b s d < 2 ^ 63"
  shows "nat b < 2 ^ 63 \<and> nat s < 2 ^ 63 \<and> nat d < 2 ^ 63"
proof -
  define b' s' d' where "b' = (if b = 0 then 1 else b)" and "s' = (if s = 0 then 1 else s)"
    and "d' = (if d = 0 then 1 else d)"
  have pos: "1 \<le> b'" "1 \<le> s'" "1 \<le> d'" and le: "b \<le> b'" "s \<le> s'" "d \<le> d'"
    using assms(1-3) by (simp_all add: b'_def s'_def d'_def)
  have n: "np_nbytes b s d = 4 * b' * s' * d'"
    by (simp add: np_nbytes_def b'_def s'_def d'_def)
  have sd: "1 * 1 \<le> s' * d'" using pos by (intro mult_mono) simp_all
  have bd: "1 * 1 \<le> b' * d'" using pos by (intro mult_mono) simp_all
  have bs: "1 * 1 \<le> b' * s'" using pos by (intro mult_mono) simp_all
  have "b' * 1 \<le> b' * (4 * (s' * d'))" using pos(1) sd by (intro mult_left_mono) simp_all
  then have b: "b \<le> np_nbytes b s d" using le(1) unfolding n by (simp add: ac_simps)
  have "s' * 1 \<le> s' * (4 * (b' * d'))" using pos(2) bd by (intro mult_left_mono) simp_all
  then have s: "s \<le> np_nbytes b s d" using le(2) unfolding n by (simp add: ac_simps)
  have "d' * 1 \<le> d' * (4 * (b' * s'))" using pos(3) bs by (intro mult_left_mono) simp_all
  then have d: "d \<le> np_nbytes b s d" using le(3) unfolding n by (simp add: ac_simps)
  have "nat k < 2 ^ 63" if "k \<le> np_nbytes b s d" for k
  proof -
    from that assms(4) have "k < 2 ^ 63" by simp
    then show ?thesis by (simp add: nat_less_iff)
  qed
  with b s d show ?thesis by blast
qed

lemma c_long_nat: "n < 2 ^ 63 \<Longrightarrow> c_long (int n)"
proof -
  assume "n < 2 ^ 63"
  then have "int n < int (2 ^ 63)" by (simp only: of_nat_less_iff)
  then show ?thesis by (simp add: c_long_def)
qed

lemma c_long_range: "- int d \<le> k \<Longrightarrow> k < int d \<Longrightarrow> d < 2 ^ 63 \<Longrightarrow> c_long k"
proof -
  assume k: "- int d \<le> k" "k < int d" and "d < 2 ^ 63"
  then have "int d < int (2 ^ 63)" by (simp only: of_nat_less_iff)
  then have "int d < 2 ^ 63" by simp
  with k show ?thesis by (simp add: c_long_def)
qed

lemma np_index_nat: "n < len \<Longrightarrow> len < 2 ^ 63 \<Longrightarrow> np_index len (int n) = Inr n"
  using c_long_nat [of n] by (simp add: np_index_def)

lemma slot_error_None_iff:
  "d < 2 ^ 63 \<Longrightarrow> slot_error sequence d i u = None \<longleftrightarrow> visited_ok sequence d i u"
  using c_long_range [of d "sequence ! i ! u"]
  by (auto simp: slot_error_def visited_ok_def)

lemma slot_error_SomeD:
  "slot_error sequence d i u = Some e \<Longrightarrow> e = IndexError \<or> e = OverflowError"
  by (auto simp: slot_error_def split: if_splits)

lemma slot_error_fits:
  assumes "i < length sequence \<and> u < length (sequence ! i) \<longrightarrow> c_long (sequence ! i ! u)"
  shows "slot_error sequence d i u = None \<or> slot_error sequence d i u = Some IndexError"
  using assms by (auto simp: slot_error_def)

lemma first_error_append:
  "first_error f (xs @ ys) =
     (case first_error f xs of Some e \<Rightarrow> Some e | None \<Rightarrow> first_error f ys)"
  by (induction xs) (auto split: option.splits)

lemma first_error_None_iff: "first_error f xs = None \<longleftrightarrow> (\<forall>x \<in> set xs. f x = None)"
  by (induction xs) (auto split: option.splits)

lemma first_error_SomeD: "first_error f xs = Some e \<Longrightarrow> \<exists>x \<in> set xs. f x = Some e"
  by (induction xs) (auto split: option.splits)

lemma first_error_only:
  "\<forall>x \<in> set xs. f x = None \<or> f x = Some e \<Longrightarrow>
   first_error f xs = (if \<forall>x \<in> set xs. f x = None then None else Some e)"
  by (induction xs) (auto split: option.splits)

lemma set_slot_eq:
  assumes "shape a = (b, s, d)" and "i < b" and "u < s"
    and "b < 2 ^ 63" and "s < 2 ^ 63"
  shows "set_slot sequence i u a =
           (case slot_error sequence d i u of
              Some e \<Rightarrow> Inl e
            | None \<Rightarrow>
                Inr (a\<lparr>cells := (cells a)[i := (cells a ! i)[u :=
                  (cells a ! i ! u)[nat (if sequence ! i ! u < 0 then sequence ! i ! u + int d
                                         else sequence ! i ! u) := 1]]]\<rparr>))"
proof -
  have i: "np_index b (int i) = Inr i" using assms by (simp add: np_index_nat)
  have u: "np_index s (int u) = Inr u" using assms by (simp add: np_index_nat)
  have set: "np_setitem a (int i) (int u) k 1 =
       bind_err (np_index d k) (\<lambda>k'.
         Inr (a\<lparr>cells := (cells a)[i := (cells a ! i)[u := (cells a ! i ! u)[k' := 1]]]\<rparr>))" for k
    using assms(1) by (simp add: np_setitem_def i u)
  have idx: "np_index d k =
       (if \<not> c_long k then Inl OverflowError
        else if - int d \<le> k \<and> k < int d then Inr (nat (if k < 0 then k + int d else k))
        else Inl IndexError)" for k
    by (simp add: np_index_def)
  show ?thesis
  proof (cases "i < length sequence \<and> u < length (sequence ! i)")
    case True
    then show ?thesis
      by (simp add: set_slot_def slot_error_def list_get_def set idx)
  next
    case False
    then show ?thesis
      by (auto simp: set_slot_def slot_error_def list_get_def)
  qed
qed

lemma enc_row_0: "enc_row sequence d s i 0 = replicate s (replicate d 0)"
  by (auto simp: enc_row_def intro: nth_equalityI)

lemma enc_row_Suc:
  "n < s \<Longrightarrow> (enc_row sequence d s i n)[n := one_hot d (sequence ! i ! n)]
             = enc_row sequence d s i (Suc n)"
  by (rule nth_equalityI) (auto simp: enc_row_def nth_list_update less_Suc_eq)

lemma enc_row_nth_zero: "n < s \<Longrightarrow> enc_row sequence d s i n ! n = replicate d 0"
  by (simp add: enc_row_def)

lemma inner_loop:
  assumes "i < b" and "shape a = (b, s, d)" and "length (cells a) = b"
    and "cells a ! i = replicate s (replicate d 0)"
    and "b < 2 ^ 63" and "s < 2 ^ 63"
  shows "n \<le> s \<Longrightarrow> for_each [0..<n] (set_slot sequence i) a =
           (case first_error (slot_error sequence d i) [0..<n] of
              Some e \<Rightarrow> Inl e
            | None \<Rightarrow> Inr (a\<lparr>cells := (cells a)[i := enc_row sequence d s i n]\<rparr>))"
proof (induction n)
  case 0
  have "(cells a)[i := cells a ! i] = cells a" by simp
  then show ?case using assms(4) by (simp add: enc_row_0)
next
  case (Suc n)
  then have n: "n < s" by simp
  let ?a' = "a\<lparr>cells := (cells a)[i := enc_row sequence d s i n]\<rparr>"
  show ?case
  proof (cases "first_error (slot_error sequence d i) [0..<n]")
    case (Some e)
    then have "for_each [0..<n] (set_slot sequence i) a = Inl e"
      using Suc by simp
    with Some show ?thesis by (simp add: for_each_append first_error_append)
  next
    case None
    then have before: "for_each [0..<n] (set_slot sequence i) a = Inr ?a'"
      using Suc by simp
    have sh: "shape ?a' = (b, s, d)" using assms(2) by simp
    have row: "cells ?a' ! i = enc_row sequence d s i n" using assms(1,3) by simp
    note step = set_slot_eq [OF sh assms(1) n assms(5) assms(6), of sequence]
    show ?thesis
    proof (cases "slot_error sequence d i n")
      case ok: None
      have "set_slot sequence i n ?a' =
              Inr (a\<lparr>cells := (cells a)[i := enc_row sequence d s i (Suc n)]\<rparr>)"
        using step ok row enc_row_Suc [OF n, of sequence d i]
        by (simp add: enc_row_nth_zero [OF n] one_hot_def)
      with before None ok show ?thesis
        by (simp add: for_each_append first_error_append)
    next
      case (Some e)
      with step have "set_slot sequence i n ?a' = Inl e" by simp
      with before None Some show ?thesis
        by (simp add: for_each_append first_error_append)
    qed
  qed
qed

lemma enc_cells_0: "enc_cells sequence d s b 0 = replicate b (replicate s (replicate d 0))"
  by (auto simp: enc_cells_def intro: nth_equalityI)

lemma enc_cells_Suc:
  "m < b \<Longrightarrow> (enc_cells sequence d s b m)[m := enc_row sequence d s m s]
             = enc_cells sequence d s b (Suc m)"
  by (rule nth_equalityI) (auto simp: enc_cells_def nth_list_update less_Suc_eq)

lemma outer_loop:
  assumes "b < 2 ^ 63" and "s < 2 ^ 63"
  shows "m \<le> b \<Longrightarrow>
   for_each [0..<m] (\<lambda>i. for_each [0..<s] (set_slot sequence i))
     \<lparr>shape = (b, s, d), cells = replicate b (replicate s (replicate d 0))\<rparr> =
     (case first_error (\<lambda>i. first_error (slot_error sequence d i) [0..<s]) [0..<m] of
        Some e \<Rightarrow> Inl e
      | None \<Rightarrow> Inr \<lparr>shape = (b, s, d), cells = enc_cells sequence d s b m\<rparr>)"
proof (induction m)
  case 0
  then show ?case by (simp add: enc_cells_0)
next
  case (Suc m)
  then have m: "m < b" by simp
  let ?rows = "\<lambda>i. first_error (slot_error sequence d i) [0..<s]"
  let ?a = "\<lparr>shape = (b, s, d), cells = enc_cells sequence d s b m\<rparr>"
  show ?case
  proof (cases "first_error ?rows [0..<m]")
    case (Some e)
    then have "for_each [0..<m] (\<lambda>i. for_each [0..<s] (set_slot sequence i))
        \<lparr>shape = (b, s, d), cells = replicate b (replicate s (replicate d 0))\<rparr> = Inl e"
      using Suc by simp
    with Some show ?thesis by (simp add: for_each_append first_error_append)
  next
    case None
    then have before: "for_each [0..<m] (\<lambda>i. for_each [0..<s] (set_slot sequence i))
        \<lparr>shape = (b, s, d), cells = replicate b (replicate s (replicate d 0))\<rparr> = Inr ?a"
      using Suc by simp
    have row: "cells ?a ! m = replicate s (replicate d 0)"
      using m by (simp add: enc_cells_def)
    have len: "length (cells ?a) = b" by (simp add: enc_cells_def)
    have inner: "for_each [0..<s] (set_slot sequence m) ?a =
           (case ?rows m of
              Some e \<Rightarrow> Inl e
            | None \<Rightarrow> Inr (?a\<lparr>cells := (cells ?a)[m := enc_row sequence d s m s]\<rparr>))"
      by (rule inner_loop [OF m _ len row assms]) simp_all
    show ?thesis
      using before inner None enc_cells_Suc [OF m, of sequence d s]
      by (simp add: for_each_append first_error_append split: option.splits)
  qed
qed

lemma enc_cells_full:
  "enc_cells sequence d s b b = map (\<lambda>i. map (\<lambda>u. one_hot d (sequence ! i ! u)) [0..<s]) [0..<b]"
  by (simp add: enc_cells_def enc_row_def)

lemma one_hot_encode_eq:
  "one_hot_encode sequence dict_sz seq_len batch_size =
     (if batch_size < 0 \<or> seq_len < 0 \<or> dict_sz < 0
         \<or> 2 ^ 63 \<le> np_nbytes batch_size seq_len dict_sz
      then Inl ValueError
      else case first_error (\<lambda>i. first_error (slot_error sequence (nat dict_sz) i)
                                     [0..<nat seq_len]) [0..<nat batch_size] of
             Some e \<Rightarrow> Inl e
           | None \<Rightarrow>
               Inr \<lparr>shape = (nat batch_size, nat seq_len, nat dict_sz),
                    cells = map (\<lambda>i. map (\<lambda>u. one_hot (nat dict_sz) (sequence ! i ! u))
                                           [0..<nat seq_len]) [0..<nat batch_size]\<rparr>)"
proof (cases "batch_size < 0 \<or> seq_len < 0 \<or> dict_sz < 0
         \<or> 2 ^ 63 \<le> np_nbytes batch_size seq_len dict_sz")
  case True
  then show ?thesis by (auto simp: one_hot_encode_def np_zeros_def)
next
  case False
  then have "0 \<le> batch_size" "0 \<le> seq_len" "0 \<le> dict_sz"
    "np_nbytes batch_size seq_len dict_sz < 2 ^ 63" by simp_all
  from np_nbytes_bounds [OF this] have b: "nat batch_size < 2 ^ 63" and s: "nat seq_len < 2 ^ 63"
    by simp_all
  have body: "(\<lambda>u features. bind_err (list_get sequence i) (\<lambda>row.
           bind_err (list_get row u) (\<lambda>k. np_setitem features (int i) (int u) k 1)))
        = set_slot sequence i" for i
    by (intro ext) (simp add: set_slot_def)
  show ?thesis
    using False outer_loop [OF b s, of "nat batch_size" sequence "nat dict_sz"]
    by (simp add: one_hot_encode_def np_zeros_def py_range_def body enc_cells_full
        split: option.splits)
qed

lemma count_list_replicate: "count_list (replicate n x) y = (if x = y then n else 0)"
  by (induction n) auto

lemma count_list_update_replicate:
  "j < n \<Longrightarrow> x \<noteq> y \<Longrightarrow>
   count_list ((replicate n x)[j := y]) z = (if z = y then 1 else if z = x then n - 1 else 0)"
  by (simp add: upd_conv_take_nth_drop count_list_replicate min_def)

lemma one_hot_slot:
  assumes "- int d \<le> k" and "k < int d"
  shows "is_one_hot (one_hot d k) \<and> length (one_hot d k) = d
         \<and> nat (if k < 0 then k + int d else k) < d
         \<and> one_hot d k ! nat (if k < 0 then k + int d else k) = 1"
proof -
  let ?j = "nat (if k < 0 then k + int d else k)"
  have j: "?j < d" using assms by auto
  have "count_list ((replicate d (0::real))[?j := 1]) 1 = 1"
       "count_list ((replicate d (0::real))[?j := 1]) 0 = d - 1"
    using count_list_update_replicate [OF j, of "0::real" 1] by simp_all
  then show ?thesis
    using j unfolding is_one_hot_def one_hot_def by simp
qed

subsection \<open>C1: the two maps of the vocabulary are mutual inverses\<close>

text \<open>
  Claim C1. For every corpus and every order in which Python may iterate its character
  set, the vocabulary's maps are mutual inverses over the dense index range
  \<open>[0, dict_size)\<close>: every character \<open>c\<close> of the corpus has an index \<open>char2int[c]\<close> below
  \<open>dict_size\<close> with \<open>int2char[char2int[c]] = c\<close>; every index \<open>i\<close> below \<open>dict_size\<close> has a
  character \<open>int2char[i]\<close> of the corpus with \<open>char2int[int2char[i]] = i\<close>; the keys of
  \<open>int2char\<close> and the values of \<open>char2int\<close> are exactly \<open>0, ..., dict_size - 1\<close>; and
  \<open>dict_size\<close> is the number of distinct characters of the corpus.
\<close>

theorem vocabulary_maps_inverse:
  assumes "iteration_of (chars_of text) order" and "v = build_vocab order"
  shows "(\<forall>c \<in> chars_of text. \<exists>i < dict_size v.
            dict_get (char2int v) c = Inr i \<and> dict_get (int2char v) i = Inr c)
       \<and> (\<forall>i < dict_size v. \<exists>c \<in> chars_of text.
            dict_get (int2char v) i = Inr c \<and> dict_get (char2int v) c = Inr i)
       \<and> map fst (int2char v) = [0..<dict_size v]
       \<and> map snd (char2int v) = [0..<dict_size v]
       \<and> dict_size v = card (chars_of text)"
proof -
  from assms(1) have d: "distinct order" and s: "set order = chars_of text"
    by (simp_all add: iteration_of_def)
  have n: "dict_size v = length order"
    using d assms(2) by (simp add: dict_size_build)
  have fwd: "\<forall>c \<in> chars_of text. \<exists>i < dict_size v.
            dict_get (char2int v) c = Inr i \<and> dict_get (int2char v) i = Inr c"
  proof
    fix c assume "c \<in> chars_of text"
    then have "c \<in> set order" using s by simp
    from char2int_get_member [OF d this] obtain i where
      i: "i < length order" "order ! i = c" "dict_get (char2int (build_vocab order)) c = Inr i"
      by blast
    then show "\<exists>i < dict_size v. dict_get (char2int v) c = Inr i \<and> dict_get (int2char v) i = Inr c"
      using n assms(2) by (auto simp: int2char_get)
  qed
  have bwd: "\<forall>i < dict_size v. \<exists>c \<in> chars_of text.
            dict_get (int2char v) i = Inr c \<and> dict_get (char2int v) c = Inr i"
  proof (intro allI impI)
    fix i assume "i < dict_size v"
    then have i: "i < length order" using n by simp
    then have "order ! i \<in> chars_of text" using s nth_mem by blast
    moreover have "dict_get (int2char v) i = Inr (order ! i)"
      using i assms(2) by (simp add: int2char_get)
    moreover have "dict_get (char2int v) (order ! i) = Inr i"
      using char2int_get_nth [OF d i] assms(2) by simp
    ultimately show "\<exists>c \<in> chars_of text.
            dict_get (int2char v) i = Inr c \<and> dict_get (char2int v) c = Inr i"
      by blast
  qed
  have k1: "map fst (int2char v) = [0..<dict_size v]"
    using n assms(2) by (simp add: int2char_build map_fst_enumerate)
  have k2: "map snd (char2int v) = [0..<dict_size v]"
    using n d assms(2) by (simp add: char2int_build)
  have c: "dict_size v = card (chars_of text)"
    using n d s distinct_card by fastforce
  from fwd bwd k1 k2 c show ?thesis by blast
qed

theorem vocabulary_maps_inverse_witness:
  "iteration_of (chars_of notebook_text) notebook_order
   \<and> dict_size (build_vocab notebook_order) = 17
   \<and> (\<exists>i < dict_size (build_vocab notebook_order).
         dict_get (char2int (build_vocab notebook_order)) CHR ''h'' = Inr i
         \<and> dict_get (int2char (build_vocab notebook_order)) i = Inr CHR ''h'')
   \<and> (\<exists>c \<in> chars_of notebook_text.
         dict_get (int2char (build_vocab notebook_order)) 16 = Inr c
         \<and> dict_get (char2int (build_vocab notebook_order)) c = Inr 16)
   \<and> map fst (int2char (build_vocab notebook_order)) = [0..<17]
   \<and> dict_get (char2int (build_vocab notebook_order)) CHR ''h'' = Inr 6
   \<and> dict_get (int2char (build_vocab notebook_order)) 16 = Inr CHR '' ''"
proof -
  have it: "iteration_of (chars_of notebook_text) notebook_order"
    by code_simp
  have sz: "dict_size (build_vocab notebook_order) = 17"
    by code_simp
  have h: "CHR ''h'' \<in> chars_of notebook_text"
    by code_simp
  have e1: "dict_get (char2int (build_vocab notebook_order)) CHR ''h'' = Inr 6"
    by code_simp
  have e2: "dict_get (int2char (build_vocab notebook_order)) 16 = Inr CHR '' ''"
    by code_simp
  note inst = vocabulary_maps_inverse [OF it refl]
  from inst h have a: "\<exists>i < dict_size (build_vocab notebook_order).
         dict_get (char2int (build_vocab notebook_order)) CHR ''h'' = Inr i
         \<and> dict_get (int2char (build_vocab notebook_order)) i = Inr CHR ''h''"
    by blast
  have "(16::nat) < dict_size (build_vocab notebook_order)" using sz by simp
  with inst have b: "\<exists>c \<in> chars_of notebook_text.
         dict_get (int2char (build_vocab notebook_order)) 16 = Inr c
         \<and> dict_get (char2int (build_vocab notebook_order)) c = Inr 16"
    by blast
  from inst sz have c: "map fst (int2char (build_vocab notebook_order)) = [0..<17]"
    by simp
  from it sz a b c e1 e2 show ?thesis by blast
qed

subsection \<open>Consequences for the claims about \<open>one_hot_encode\<close>\<close>

lemma no_error_iff:
  "d < 2 ^ 63 \<Longrightarrow>
   first_error (\<lambda>i. first_error (slot_error sequence d i) [0..<s]) [0..<b] = None
     \<longleftrightarrow> (\<forall>i<b. \<forall>u<s. visited_ok sequence d i u)"
  by (auto simp: first_error_None_iff slot_error_None_iff)

lemma one_hot_encode_Inr_iff:
  "(\<exists>f. one_hot_encode sequence d s b = Inr f) \<longleftrightarrow>
     0 \<le> b \<and> 0 \<le> s \<and> 0 \<le> d \<and> np_nbytes b s d < 2 ^ 63
     \<and> (\<forall>i<nat b. \<forall>u<nat s. visited_ok sequence (nat d) i u)"
proof (cases "0 \<le> b \<and> 0 \<le> s \<and> 0 \<le> d \<and> np_nbytes b s d < 2 ^ 63")
  case True
  then have "0 \<le> b" "0 \<le> s" "0 \<le> d" "np_nbytes b s d < 2 ^ 63" by simp_all
  from np_nbytes_bounds [OF this] have "nat d < 2 ^ 63" by simp
  from no_error_iff [OF this, of sequence "nat s" "nat b"] True show ?thesis
    by (auto simp: one_hot_encode_eq split: option.splits)
next
  case False
  then show ?thesis by (auto simp: one_hot_encode_eq)
qed

lemma one_hot_encode_InrD:
  assumes "one_hot_encode sequence d s b = Inr f"
  shows "0 \<le> b \<and> 0 \<le> s \<and> 0 \<le> d \<and> np_nbytes b s d < 2 ^ 63
       \<and> (\<forall>i<nat b. \<forall>u<nat s. visited_ok sequence (nat d) i u)
       \<and> shape f = (nat b, nat s, nat d)
       \<and> cells f = map (\<lambda>i. map (\<lambda>u. one_hot (nat d) (sequence ! i ! u)) [0..<nat s]) [0..<nat b]"
proof -
  from assms have "\<exists>f. one_hot_encode sequence d s b = Inr f" by blast
  from this [unfolded one_hot_encode_Inr_iff]
  have ok: "0 \<le> b \<and> 0 \<le> s \<and> 0 \<le> d \<and> np_nbytes b s d < 2 ^ 63
       \<and> (\<forall>i<nat b. \<forall>u<nat s. visited_ok sequence (nat d) i u)" .
  from assms ok have "shape f = (nat b, nat s, nat d)
       \<and> cells f = map (\<lambda>i. map (\<lambda>u. one_hot (nat d) (sequence ! i ! u)) [0..<nat s]) [0..<nat b]"
    by (auto simp: one_hot_encode_eq split: option.splits)
  with ok show ?thesis by blast
qed

lemma one_hot_encode_InlD:
  assumes "one_hot_encode sequence d s b = Inl e"
  shows "e = ValueError \<or> e = IndexError \<or> e = OverflowError"
proof (cases "b < 0 \<or> s < 0 \<or> d < 0 \<or> 2 ^ 63 \<le> np_nbytes b s d")
  case True
  with assms show ?thesis by (auto simp: one_hot_encode_eq)
next
  case False
  with assms have "first_error (\<lambda>i. first_error (slot_error sequence (nat d) i) [0..<nat s])
      [0..<nat b] = Some e"
    by (auto simp: one_hot_encode_eq split: option.splits)
  from first_error_SomeD [OF this] obtain i where
    "first_error (slot_error sequence (nat d) i) [0..<nat s] = Some e" by blast
  from first_error_SomeD [OF this] obtain u where "slot_error sequence (nat d) i u = Some e"
    by blast
  from slot_error_SomeD [OF this] show ?thesis by blast
qed

subsection \<open>C2: every slice of the feature array is one-hot\<close>

text \<open>
  Claim C2. For every input of index sequences whose every index lies in
  \<open>[0, vocab_size)\<close>, the output of \<open>one_hot_encode\<close> has shape
  \<open>(batch_size, seq_len, vocab_size)\<close>, and every (batch, time) slice holds exactly one
  entry equal to 1, at the slot of the given index, and 0 everywhere else. There is an
  output whenever the dimensions are not negative, the array is within numpy's size limit,
  and the input has at least \<open>batch_size\<close> sequences of at least \<open>seq_len\<close> indices each.
\<close>

theorem one_hot_encode_one_hot:
  assumes "\<forall>row \<in> set sequence. \<forall>k \<in> set row. 0 \<le> k \<and> k < vocab_size"
  shows "(0 \<le> batch_size \<and> 0 \<le> seq_len \<and> 0 \<le> vocab_size
            \<and> np_nbytes batch_size seq_len vocab_size < 2 ^ 63
            \<and> nat batch_size \<le> length sequence
            \<and> (\<forall>i < nat batch_size. nat seq_len \<le> length (sequence ! i))
          \<longrightarrow> (\<exists>f. one_hot_encode sequence vocab_size seq_len batch_size = Inr f))
       \<and> (\<forall>f. one_hot_encode sequence vocab_size seq_len batch_size = Inr f \<longrightarrow>
             shape f = (nat batch_size, nat seq_len, nat vocab_size)
           \<and> length (cells f) = nat batch_size
           \<and> (\<forall>i < nat batch_size. length (cells f ! i) = nat seq_len
                \<and> (\<forall>u < nat seq_len. length (cells f ! i ! u) = nat vocab_size
                      \<and> is_one_hot (cells f ! i ! u)
                      \<and> cells f ! i ! u ! nat (sequence ! i ! u) = 1)))"
proof (intro conjI impI allI)
  assume dims: "0 \<le> batch_size \<and> 0 \<le> seq_len \<and> 0 \<le> vocab_size
            \<and> np_nbytes batch_size seq_len vocab_size < 2 ^ 63
            \<and> nat batch_size \<le> length sequence
            \<and> (\<forall>i < nat batch_size. nat seq_len \<le> length (sequence ! i))"
  have "visited_ok sequence (nat vocab_size) i u"
    if "i < nat batch_size" "u < nat seq_len" for i u
  proof -
    from that dims have i: "i < length sequence" and u: "u < length (sequence ! i)"
      by auto
    then have "sequence ! i \<in> set sequence" "sequence ! i ! u \<in> set (sequence ! i)"
      by simp_all
    with assms have "0 \<le> sequence ! i ! u \<and> sequence ! i ! u < vocab_size" by blast
    with i u show ?thesis by (simp add: visited_ok_def)
  qed
  with dims show "\<exists>f. one_hot_encode sequence vocab_size seq_len batch_size = Inr f"
    unfolding one_hot_encode_Inr_iff by blast
next
  fix f assume "one_hot_encode sequence vocab_size seq_len batch_size = Inr f"
  note r = one_hot_encode_InrD [OF this]
  from r show "shape f = (nat batch_size, nat seq_len, nat vocab_size)" by simp
  from r show "length (cells f) = nat batch_size" by simp
  fix i assume i: "i < nat batch_size"
  with r show "length (cells f ! i) = nat seq_len" by simp
  fix u assume u: "u < nat seq_len"
  from r i u have cell: "cells f ! i ! u = one_hot (nat vocab_size) (sequence ! i ! u)"
    by simp
  from r i u have ok: "visited_ok sequence (nat vocab_size) i u" by blast
  then have "sequence ! i \<in> set sequence" "sequence ! i ! u \<in> set (sequence ! i)"
    by (simp_all add: visited_ok_def)
  with assms have nonneg: "0 \<le> sequence ! i ! u" by blast
  from ok have "- int (nat vocab_size) \<le> sequence ! i ! u" "sequence ! i ! u < int (nat vocab_size)"
    by (simp_all add: visited_ok_def)
  from one_hot_slot [OF this] cell nonneg
  show "length (cells f ! i ! u) = nat vocab_size"
    and "is_one_hot (cells f ! i ! u)"
    and "cells f ! i ! u ! nat (sequence ! i ! u) = 1"
    by simp_all
qed

theorem one_hot_encode_one_hot_witness:
  "(\<exists>f. one_hot_encode [[0, 2], [1, 1]] 3 2 2 = Inr f
          \<and> shape f = (2, 2, 3)
          \<and> (\<forall>i < 2. \<forall>u < 2. is_one_hot (cells f ! i ! u)))
   \<and> one_hot_encode [[0, 2], [1, 1]] 3 2 2
       = Inr \<lparr>shape = (2, 2, 3), cells = [[[1, 0, 0], [0, 0, 1]], [[0, 1, 0], [0, 1, 0]]]\<rparr>"
proof -
  have h: "\<forall>row \<in> set [[0, 2], [1, 1 :: int]]. \<forall>k \<in> set row. 0 \<le> k \<and> k < 3"
    by simp
  have sz: "np_nbytes 2 2 3 < 2 ^ 63"
    by (simp add: np_nbytes_def)
  have pre: "(0::int) \<le> 2 \<and> (0::int) \<le> 2 \<and> (0::int) \<le> 3
      \<and> np_nbytes 2 2 3 < 2 ^ 63
      \<and> nat 2 \<le> length [[0, 2], [1, 1 :: int]]
      \<and> (\<forall>i < nat 2. nat 2 \<le> length ([[0, 2], [1, 1 :: int]] ! i))"
    using sz by (simp add: less_Suc_eq nat_2 numeral_2_eq_2)
  have ev: "one_hot_encode [[0, 2], [1, 1]] 3 2 2
       = Inr \<lparr>shape = (2, 2, 3), cells = [[[1, 0, 0], [0, 0, 1]], [[0, 1, 0], [0, 1, 0]]]\<rparr>"
    by code_simp
  from one_hot_encode_one_hot [OF h, of 2 2] pre
  obtain f where f: "one_hot_encode [[0, 2], [1, 1]] 3 2 2 = Inr f"
    by blast
  from one_hot_encode_one_hot [OF h, of 2 2] f
  have "shape f = (nat 2, nat 2, nat 3)
        \<and> (\<forall>i < nat 2. \<forall>u < nat 2. is_one_hot (cells f ! i ! u))"
    by blast
  then have "shape f = (2, 2, 3) \<and> (\<forall>i < 2. \<forall>u < 2. is_one_hot (cells f ! i ! u))"
    by simp
  with f ev show ?thesis by blast
qed

subsection \<open>C3: which indices make \<open>one_hot_encode\<close> fail\<close>

text \<open>
  Claim C3 says that \<open>one_hot_encode\<close> fails with an index error whenever any index of the
  input lies outside \<open>[0, vocab_size)\<close>, in particular for every negative index. The code
  hands the index to numpy, which counts a negative index from the end of the axis: the
  index \<open>-1\<close> sets the last slot. An index at a position the loops never visit is not read.
\<close>

theorem one_hot_encode_negative_index_counterexample:
  "one_hot_encode [[- 1]] 3 1 1 = Inr \<lparr>shape = (1, 1, 3), cells = [[[0, 0, 1]]]\<rparr>
   \<and> one_hot_encode [[0, 7]] 3 1 1 = Inr \<lparr>shape = (1, 1, 3), cells = [[[1, 0, 0]]]\<rparr>"
  by code_simp

text \<open>
  Claim C3 as amended. Take non-negative dimensions within numpy's size limit, and an
  input whose indices at the positions \<open>(i, u)\<close> with \<open>i < batch_size\<close> and \<open>u < seq_len\<close> fit
  a machine integer (\<open>|k| < 2^63\<close>). Then \<open>one_hot_encode\<close> fails with an index error exactly
  when, at some such position, the input has no index or has an index \<open>k\<close> with
  \<open>k \<ge> vocab_size\<close> or \<open>k < -vocab_size\<close>. A negative index \<open>k \<ge> -vocab_size\<close> does not fail: it
  sets the slot \<open>vocab_size + k\<close>.
\<close>

theorem one_hot_encode_index_error:
  assumes "0 \<le> batch_size" and "0 \<le> seq_len" and "0 \<le> vocab_size"
    and "np_nbytes batch_size seq_len vocab_size < 2 ^ 63"
    and "\<forall>i < nat batch_size. \<forall>u < nat seq_len.
           i < length sequence \<and> u < length (sequence ! i) \<longrightarrow> \<bar>sequence ! i ! u\<bar> < 2 ^ 63"
  shows "(one_hot_encode sequence vocab_size seq_len batch_size = Inl IndexError \<longleftrightarrow>
            (\<exists>i < nat batch_size. \<exists>u < nat seq_len.
               \<not> (i < length sequence \<and> u < length (sequence ! i)
                  \<and> - vocab_size \<le> sequence ! i ! u \<and> sequence ! i ! u < vocab_size)))
       \<and> (\<forall>f. one_hot_encode sequence vocab_size seq_len batch_size = Inr f \<longrightarrow>
             (\<forall>i < nat batch_size. \<forall>u < nat seq_len.
                sequence ! i ! u < 0 \<longrightarrow>
                  cells f ! i ! u ! nat (vocab_size + sequence ! i ! u) = 1))"
proof (intro conjI allI impI)
  let ?d = "nat vocab_size" and ?s = "nat seq_len" and ?b = "nat batch_size"
  let ?row = "\<lambda>i. first_error (slot_error sequence ?d i) [0..<?s]"
  from np_nbytes_bounds [OF assms(1-4)] have d: "?d < 2 ^ 63" by simp
  have slot: "slot_error sequence ?d i u = None \<or> slot_error sequence ?d i u = Some IndexError"
    if "i < ?b" "u < ?s" for i u
  proof (rule slot_error_fits, rule impI)
    assume "i < length sequence \<and> u < length (sequence ! i)"
    with assms(5) that have "\<bar>sequence ! i ! u\<bar> < 2 ^ 63" by blast
    then show "c_long (sequence ! i ! u)" by (auto simp: c_long_def)
  qed
  have row: "?row i = (if \<forall>u \<in> set [0..<?s]. slot_error sequence ?d i u = None
                       then None else Some IndexError)" if "i < ?b" for i
    using slot [OF that] by (intro first_error_only) simp
  then have "\<forall>i \<in> set [0..<?b]. ?row i = None \<or> ?row i = Some IndexError"
    by simp
  from first_error_only [OF this]
  have outer: "first_error ?row [0..<?b] =
      (if \<forall>i \<in> set [0..<?b]. ?row i = None then None else Some IndexError)" .
  have none: "(\<forall>i \<in> set [0..<?b]. ?row i = None)
      \<longleftrightarrow> (\<forall>i<?b. \<forall>u<?s. visited_ok sequence ?d i u)"
    by (auto simp: first_error_None_iff slot_error_None_iff [OF d])
  note outer' = outer [unfolded none]
  have res: "one_hot_encode sequence vocab_size seq_len batch_size =
      (if \<forall>i<?b. \<forall>u<?s. visited_ok sequence ?d i u
       then Inr \<lparr>shape = (?b, ?s, ?d),
                 cells = map (\<lambda>i. map (\<lambda>u. one_hot ?d (sequence ! i ! u)) [0..<?s]) [0..<?b]\<rparr>
       else Inl IndexError)"
    using assms(1-4) by (simp add: one_hot_encode_eq outer')
  have "one_hot_encode sequence vocab_size seq_len batch_size = Inl IndexError
      \<longleftrightarrow> (\<exists>i<?b. \<exists>u<?s. \<not> visited_ok sequence ?d i u)"
    unfolding res by auto
  then show "one_hot_encode sequence vocab_size seq_len batch_size = Inl IndexError \<longleftrightarrow>
            (\<exists>i < nat batch_size. \<exists>u < nat seq_len.
               \<not> (i < length sequence \<and> u < length (sequence ! i)
                  \<and> - vocab_size \<le> sequence ! i ! u \<and> sequence ! i ! u < vocab_size))"
    using assms(3) by (simp add: visited_ok_def)
next
  fix f i u
  assume "one_hot_encode sequence vocab_size seq_len batch_size = Inr f"
    and i: "i < nat batch_size" and u: "u < nat seq_len" and neg: "sequence ! i ! u < 0"
  note r = one_hot_encode_InrD [OF this(1)]
  from r i u have cell: "cells f ! i ! u = one_hot (nat vocab_size) (sequence ! i ! u)"
    by simp
  from r i u have ok: "visited_ok sequence (nat vocab_size) i u" by blast
  then have "- int (nat vocab_size) \<le> sequence ! i ! u" "sequence ! i ! u < int (nat vocab_size)"
    by (simp_all add: visited_ok_def)
  from one_hot_slot [OF this] cell neg assms(3)
  show "cells f ! i ! u ! nat (vocab_size + sequence ! i ! u) = 1"
    by (simp add: add.commute)
qed

theorem one_hot_encode_index_error_witness:
  "one_hot_encode [[0, 3]] 3 2 1 = Inl IndexError
   \<and> one_hot_encode [[0, - 4]] 3 2 1 = Inl IndexError
   \<and> one_hot_encode [[0]] 3 2 1 = Inl IndexError
   \<and> (\<exists>f. one_hot_encode [[0, - 3]] 3 2 1 = Inr f \<and> cells f ! 0 ! 1 ! nat (3 + - 3) = 1)
   \<and> one_hot_encode [[0, - 3]] 3 2 1 = Inr \<lparr>shape = (1, 2, 3), cells = [[[1, 0, 0], [1, 0, 0]]]\<rparr>"
proof -
  have d: "(0::int) \<le> 1" "(0::int) \<le> 2" "(0::int) \<le> 3" by simp_all
  have sz: "np_nbytes 1 2 3 < 2 ^ 63" by (simp add: np_nbytes_def)
  have fit: "\<forall>i < nat 1. \<forall>u < nat 2.
           i < length sq \<and> u < length (sq ! i) \<longrightarrow> \<bar>sq ! i ! u\<bar> < 2 ^ 63"
    if "sq = [[0, k]] \<or> sq = [[0]]" and "\<bar>k\<bar> < 5" for sq :: "int list list" and k :: int
    using that by (auto simp: less_Suc_eq nth_Cons split: nat.splits)
  have f1: "\<forall>i < nat 1. \<forall>u < nat 2. i < length [[0, 3 :: int]] \<and> u < length ([[0, 3 :: int]] ! i)
      \<longrightarrow> \<bar>[[0, 3 :: int]] ! i ! u\<bar> < 2 ^ 63"
    by (rule fit [of _ 3]) simp_all
  have f2: "\<forall>i < nat 1. \<forall>u < nat 2. i < length [[0, - 4 :: int]] \<and> u < length ([[0, - 4 :: int]] ! i)
      \<longrightarrow> \<bar>[[0, - 4 :: int]] ! i ! u\<bar> < 2 ^ 63"
    by (rule fit [of _ "- 4"]) simp_all
  have f3: "\<forall>i < nat 1. \<forall>u < nat 2. i < length [[0 :: int]] \<and> u < length ([[0 :: int]] ! i)
      \<longrightarrow> \<bar>[[0 :: int]] ! i ! u\<bar> < 2 ^ 63"
    by (rule fit [of _ 0]) simp_all
  have f4: "\<forall>i < nat 1. \<forall>u < nat 2. i < length [[0, - 3 :: int]] \<and> u < length ([[0, - 3 :: int]] ! i)
      \<longrightarrow> \<bar>[[0, - 3 :: int]] ! i ! u\<bar> < 2 ^ 63"
    by (rule fit [of _ "- 3"]) simp_all
  have bad1: "\<exists>i < nat 1. \<exists>u < nat 2.
               \<not> (i < length [[0, 3 :: int]] \<and> u < length ([[0, 3 :: int]] ! i)
                  \<and> - 3 \<le> [[0, 3 :: int]] ! i ! u \<and> [[0, 3 :: int]] ! i ! u < 3)"
    by (rule exI [of _ 0], simp, rule exI [of _ 1], simp)
  have bad2: "\<exists>i < nat 1. \<exists>u < nat 2.
               \<not> (i < length [[0, - 4 :: int]] \<and> u < length ([[0, - 4 :: int]] ! i)
                  \<and> - 3 \<le> [[0, - 4 :: int]] ! i ! u \<and> [[0, - 4 :: int]] ! i ! u < 3)"
    by (rule exI [of _ 0], simp, rule exI [of _ 1], simp)
  have bad3: "\<exists>i < nat 1. \<exists>u < nat 2.
               \<not> (i < length [[0 :: int]] \<and> u < length ([[0 :: int]] ! i)
                  \<and> - 3 \<le> [[0 :: int]] ! i ! u \<and> [[0 :: int]] ! i ! u < 3)"
    by (rule exI [of _ 0], simp, rule exI [of _ 1], simp)
  have e1: "one_hot_encode [[0, 3]] 3 2 1 = Inl IndexError"
    using one_hot_encode_index_error [OF d(1) d(2) d(3) sz f1] bad1 by blast
  have e2: "one_hot_encode [[0, - 4]] 3 2 1 = Inl IndexError"
    using one_hot_encode_index_error [OF d(1) d(2) d(3) sz f2] bad2 by blast
  have e3: "one_hot_encode [[0]] 3 2 1 = Inl IndexError"
    using one_hot_encode_index_error [OF d(1) d(2) d(3) sz f3] bad3 by blast
  have e4: "one_hot_encode [[0, - 3]] 3 2 1 = Inr \<lparr>shape = (1, 2, 3), cells = [[[1, 0, 0], [1, 0, 0]]]\<rparr>"
    by code_simp
  have e5: "\<exists>f. one_hot_encode [[0, - 3]] 3 2 1 = Inr f \<and> cells f ! 0 ! 1 ! nat (3 + - 3) = 1"
  proof -
    from one_hot_encode_index_error [OF d(1) d(2) d(3) sz f4] e4
    have "\<forall>i < nat 1. \<forall>u < nat 2. [[0, - 3 :: int]] ! i ! u < 0 \<longrightarrow>
            cells \<lparr>shape = (1, 2, 3), cells = [[[1, 0, 0], [1, 0, 0 :: real]]]\<rparr> ! i ! u
              ! nat (3 + [[0, - 3 :: int]] ! i ! u) = 1"
      by blast
    moreover have "(0::nat) < nat 1" "(1::nat) < nat 2" by simp_all
    ultimately have "[[0, - 3 :: int]] ! 0 ! 1 < 0 \<longrightarrow>
            cells \<lparr>shape = (1, 2, 3), cells = [[[1, 0, 0], [1, 0, 0 :: real]]]\<rparr> ! 0 ! 1
              ! nat (3 + [[0, - 3 :: int]] ! 0 ! 1) = 1"
      by blast
    then have "cells \<lparr>shape = (1, 2, 3), cells = [[[1, 0, 0], [1, 0, 0 :: real]]]\<rparr> ! 0 ! 1
        ! nat (3 + - 3) = 1"
      by simp
    with e4 show ?thesis by blast
  qed
  from e1 e2 e3 e4 e5 show ?thesis by blast
qed

subsection \<open>What the padding loop computes\<close>

lemma pad_one_eq: "pad_one maxlen s = s @ replicate (maxlen - length s) CHR '' ''"
proof (induction maxlen s rule: pad_one.induct)
  case (1 maxlen s)
  show ?case
  proof (cases "length s < maxlen")
    case True
    then have "maxlen - length s = Suc (maxlen - Suc (length s))" by simp
    with True "1.IH" show ?thesis
      by (subst pad_one.simps) (simp add: replicate_app_Cons_same)
  next
    case False
    then show ?thesis by (subst pad_one.simps) simp
  qed
qed

lemma pad_loop:
  "n \<le> length text \<Longrightarrow>
   for_each [0..<n] (\<lambda>i text. bind_err (list_get text i) (\<lambda>s. Inr (text[i := pad_one maxlen s]))) text
     = Inr (map (pad_one maxlen) (take n text) @ drop n text)"
proof (induction n)
  case 0
  then show ?case by simp
next
  case (Suc n)
  then have n: "n < length text" by simp
  let ?t = "map (pad_one maxlen) (take n text) @ drop n text"
  have len: "length ?t = length text" using n by simp
  have nth: "?t ! n = text ! n" using n by (simp add: nth_append)
  have upd: "?t[n := pad_one maxlen (text ! n)]
               = map (pad_one maxlen) (take (Suc n) text) @ drop (Suc n) text"
    using n by (simp add: list_update_append take_Suc_conv_app_nth Cons_nth_drop_Suc [symmetric])
  from Suc n have "for_each [0..<n] (\<lambda>i text. bind_err (list_get text i)
            (\<lambda>s. Inr (text[i := pad_one maxlen s]))) text = Inr ?t"
    by simp
  then show ?case
    using n len nth upd by (simp add: for_each_append list_get_def)
qed

lemma pad_eq: "pad text maxlen = Inr (map (pad_one maxlen) text)"
  using pad_loop [of "length text" "text" maxlen] by (simp add: pad_def py_range_def)

subsection \<open>C4: padding a string that is longer than the target\<close>

text \<open>
  Claim C4 says that padding fails whenever an input string is strictly longer than the
  target length. The loop \<open>while len(text[i]) < maxlen\<close> has no other branch: for such a
  string its body never runs, and the string stays as it is.
\<close>

theorem pad_longer_counterexample:
  "pad [''abc'', ''a''] 2 = Inr [''abc'', ''a '']"
  by code_simp

text \<open>
  Claim C4 as amended. Padding never fails. It returns as many strings as it was given;
  each is the input string followed by \<open>maxlen - len\<close> spaces, so a string of length at most
  \<open>maxlen\<close> comes out with length exactly \<open>maxlen\<close>, and a string strictly longer than
  \<open>maxlen\<close> comes out unchanged.
\<close>

theorem pad_never_fails:
  "\<exists>padded. pad text maxlen = Inr padded \<and> length padded = length text
     \<and> (\<forall>i < length text.
           padded ! i = text ! i @ replicate (maxlen - length (text ! i)) CHR '' ''
         \<and> (length (text ! i) \<le> maxlen \<longrightarrow> length (padded ! i) = maxlen)
         \<and> (maxlen < length (text ! i) \<longrightarrow> padded ! i = text ! i))"
  by (simp add: pad_eq pad_one_eq)

theorem pad_never_fails_witness:
  "\<exists>padded. pad [''abc'', ''a'', ''ab''] 2 = Inr padded \<and> length padded = 3
     \<and> padded ! 0 = ''abc'' \<and> padded ! 1 = ''a '' \<and> padded ! 2 = ''ab''"
proof -
  from pad_never_fails [of "[''abc'', ''a'', ''ab'']" 2]
  obtain padded where p: "pad [''abc'', ''a'', ''ab''] 2 = Inr padded"
    and l: "length padded = length [''abc'', ''a'', ''ab'']"
    and e: "\<forall>i < length [''abc'', ''a'', ''ab''].
           padded ! i = [''abc'', ''a'', ''ab''] ! i
              @ replicate (2 - length ([''abc'', ''a'', ''ab''] ! i)) CHR '' ''"
    by blast
  from e have "padded ! 0 = ''abc''" "padded ! 1 = ''a ''" "padded ! 2 = ''ab''"
    by (simp_all add: numeral_2_eq_2)
  with p l show ?thesis by simp
qed

subsection \<open>C5: the vocabulary of an empty corpus\<close>

text \<open>
  Claim C5 says that building the vocabulary fails on an empty corpus and does not return
  an empty vocabulary. The three statements that build it (\<open>set\<close>, \<open>dict(enumerate(...))\<close>,
  the dict comprehension) accept the empty string: the result is the empty vocabulary.
\<close>

theorem build_vocab_empty_counterexample:
  "iteration_of (chars_of []) [] \<and> iteration_of (chars_of ['''', '''']) []
   \<and> build_vocab [] = \<lparr>int2char = [], char2int = []\<rparr>"
  by (simp add: iteration_of_def chars_of_def build_vocab_def dict_of_pairs_def)

text \<open>
  Claim C5 as amended. For a corpus without characters (an empty list of strings, or
  strings that are all empty) building the vocabulary does not fail: it returns the empty
  vocabulary, both maps empty and \<open>dict_size = 0\<close>.
\<close>

theorem build_vocab_empty:
  assumes "\<forall>s \<in> set text. s = []" and "iteration_of (chars_of text) order"
  shows "build_vocab order = \<lparr>int2char = [], char2int = []\<rparr> \<and> dict_size (build_vocab order) = 0"
proof -
  from assms(1) have "chars_of text = {}" by (auto simp: chars_of_def)
  with assms(2) have "order = []" by (simp add: iteration_of_def)
  then show ?thesis
    by (simp add: build_vocab_def dict_of_pairs_def dict_size_def dict_len_def)
qed

theorem build_vocab_empty_witness:
  "iteration_of (chars_of ['''', '''']) []
   \<and> build_vocab [] = \<lparr>int2char = [], char2int = []\<rparr> \<and> dict_size (build_vocab []) = 0"
proof -
  have a: "\<forall>s \<in> set ['''', '''']. s = []" by simp
  have b: "iteration_of (chars_of ['''', '''']) []" by (simp add: iteration_of_def chars_of_def)
  from build_vocab_empty [OF a b] b show ?thesis by blast
qed

subsection \<open>C6: target sequences are input sequences shifted by one\<close>

lemma max_by_len_ge:
  "length best \<le> length (max_by_len best ss) \<and> (\<forall>s \<in> set ss. length s \<le> length (max_by_len best ss))"
proof (induction ss arbitrary: best)
  case Nil
  then show ?case by simp
next
  case (Cons s ss)
  from Cons.IH [of "if length best < length s then s else best"]
  show ?case by (auto split: if_splits)
qed

lemma maxlen_of_Inr:
  assumes "text \<noteq> []"
  shows "\<exists>maxlen. maxlen_of text = Inr maxlen \<and> (\<forall>s \<in> set text. length s \<le> maxlen)"
proof -
  from assms obtain s ss where t: "text = s # ss" by (cases "text") auto
  with max_by_len_ge [of s ss] show ?thesis
    by (simp add: maxlen_of_def)
qed

lemma map_err_Inr:
  "map_err f xs = Inr ys \<Longrightarrow> length ys = length xs \<and> (\<forall>i < length xs. f (xs ! i) = Inr (ys ! i))"
proof (induction xs arbitrary: ys)
  case Nil
  then show ?case by simp
next
  case (Cons x xs)
  from Cons.prems obtain y ys' where
    y: "f x = Inr y" and ys': "map_err f xs = Inr ys'" and ys: "ys = y # ys'"
    by (auto simp: bind_err_def split: sum.splits)
  from Cons.IH [OF ys'] y ys show ?case
    by (auto simp: nth_Cons split: nat.splits)
qed

lemma prepare_InrD:
  assumes "prepare order text = Inr p"
  shows "\<exists>maxlen padded enc.
           maxlen_of text = Inr maxlen \<and> pad text maxlen = Inr padded
         \<and> encode_seqs (build_vocab order) (input_seq_of padded) (target_seq_of padded) = Inr enc
         \<and> one_hot_encode (map fst enc) (int (dict_size (build_vocab order))) (int maxlen - 1)
              (int (length padded)) = Inr (p_features p)
         \<and> p_vocab p = build_vocab order \<and> p_text p = padded
         \<and> p_input_chars p = input_seq_of padded \<and> p_target_chars p = target_seq_of padded
         \<and> p_input_seq p = map fst enc \<and> p_target_seq p = map snd enc
         \<and> p_dict_size p = int (dict_size (build_vocab order))
         \<and> p_seq_len p = int maxlen - 1 \<and> p_batch_size p = int (length padded)"
  using assms
  by (auto simp: prepare_def Let_def bind_err_def split: sum.splits)

lemma encoded_shifted:
  assumes enc: "encode_seqs v inp tgt = Inr enc" and len: "length inp = length tgt"
    and r: "r < length inp" and same: "length (tgt ! r) = length (inp ! r)"
    and shift: "\<forall>i. i + 1 < length (inp ! r) \<longrightarrow> tgt ! r ! i = inp ! r ! (i + 1)"
  shows "length enc = length inp
       \<and> length (fst (enc ! r)) = length (inp ! r) \<and> length (snd (enc ! r)) = length (inp ! r)
       \<and> (\<forall>i. i + 1 < length (fst (enc ! r)) \<longrightarrow> snd (enc ! r) ! i = fst (enc ! r) ! (i + 1))"
proof -
  let ?g = "\<lambda>c. bind_err (dict_get (char2int v) c) (\<lambda>k. Inr (int k))"
  from map_err_Inr [OF enc [unfolded encode_seqs_def]] len r
  have l: "length enc = length inp"
    and row: "bind_err (encode_chars v (inp ! r)) (\<lambda>x.
              bind_err (encode_chars v (tgt ! r)) (\<lambda>y. Inr (x, y))) = Inr (enc ! r)"
    by simp_all
  from row obtain x y where x: "encode_chars v (inp ! r) = Inr x"
    and y: "encode_chars v (tgt ! r) = Inr y" and xy: "enc ! r = (x, y)"
    by (auto simp: bind_err_def split: sum.splits)
  from map_err_Inr [OF x [unfolded encode_chars_def]]
  have lx: "length x = length (inp ! r)" and ex: "\<forall>i < length (inp ! r). ?g (inp ! r ! i) = Inr (x ! i)"
    by simp_all
  from map_err_Inr [OF y [unfolded encode_chars_def]]
  have ly: "length y = length (tgt ! r)" and ey: "\<forall>i < length (tgt ! r). ?g (tgt ! r ! i) = Inr (y ! i)"
    by simp_all
  have "y ! i = x ! (i + 1)" if i: "i + 1 < length x" for i
  proof -
    from i lx same have "i < length (tgt ! r)" "i + 1 < length (inp ! r)" by simp_all
    with ex ey have "?g (tgt ! r ! i) = Inr (y ! i)" "?g (inp ! r ! (i + 1)) = Inr (x ! (i + 1))"
      by blast+
    moreover from shift \<open>i + 1 < length (inp ! r)\<close> have "tgt ! r ! i = inp ! r ! (i + 1)"
      by blast
    ultimately show ?thesis by simp
  qed
  with l lx ly same xy show ?thesis by simp
qed

text \<open>
  Claim C6. For every non-empty corpus, \<open>maxlen\<close> and the padding return, and every
  sequence record derived from a padded sentence satisfies: the input is the sentence
  without its last character, the target is the sentence without its first character,
  \<open>target[i] = input[i+1]\<close> at every position \<open>i\<close> with \<open>i + 1 < len(input)\<close>, and all
  inputs and targets of the batch have the same length \<open>maxlen - 1\<close>. The same holds for the
  integer sequences that replace the characters whenever the notebook's preparation
  returns.
\<close>

theorem sequence_records_shifted:
  assumes "text \<noteq> []"
  shows "\<exists>maxlen padded. maxlen_of text = Inr maxlen \<and> pad text maxlen = Inr padded
     \<and> length (input_seq_of padded) = length text \<and> length (target_seq_of padded) = length text
     \<and> (\<forall>r < length text.
            input_seq_of padded ! r = butlast (padded ! r)
          \<and> target_seq_of padded ! r = tl (padded ! r)
          \<and> length (input_seq_of padded ! r) = maxlen - 1
          \<and> length (target_seq_of padded ! r) = maxlen - 1
          \<and> (\<forall>i. i + 1 < length (input_seq_of padded ! r) \<longrightarrow>
                 target_seq_of padded ! r ! i = input_seq_of padded ! r ! (i + 1)))
     \<and> (\<forall>order p. prepare order text = Inr p \<longrightarrow>
            p_input_chars p = input_seq_of padded \<and> p_target_chars p = target_seq_of padded
          \<and> length (p_input_seq p) = length text \<and> length (p_target_seq p) = length text
          \<and> (\<forall>r < length text.
                 length (p_input_seq p ! r) = maxlen - 1
               \<and> length (p_target_seq p ! r) = maxlen - 1
               \<and> (\<forall>i. i + 1 < length (p_input_seq p ! r) \<longrightarrow>
                      p_target_seq p ! r ! i = p_input_seq p ! r ! (i + 1))))"
proof -
  from maxlen_of_Inr [OF assms] obtain maxlen where
    m: "maxlen_of text = Inr maxlen" and le: "\<forall>s \<in> set text. length s \<le> maxlen"
    by blast
  let ?padded = "map (pad_one maxlen) text"
  let ?inp = "input_seq_of ?padded" and ?tgt = "target_seq_of ?padded"
  have p: "pad text maxlen = Inr ?padded" by (rule pad_eq)
  have row: "?inp ! r = butlast (?padded ! r)
          \<and> ?tgt ! r = tl (?padded ! r)
          \<and> length (?inp ! r) = maxlen - 1
          \<and> length (?tgt ! r) = maxlen - 1
          \<and> (\<forall>i. i + 1 < length (?inp ! r) \<longrightarrow> ?tgt ! r ! i = ?inp ! r ! (i + 1))"
    if r: "r < length text" for r
  proof -
    from r le have "length (text ! r) \<le> maxlen" by simp
    then have len: "length (pad_one maxlen (text ! r)) = maxlen" by (simp add: pad_one_eq)
    have i: "?inp ! r = take (maxlen - 1) (pad_one maxlen (text ! r))"
      using r len by (simp add: input_seq_of_def)
    have t: "?tgt ! r = drop 1 (pad_one maxlen (text ! r))"
      using r by (simp add: target_seq_of_def)
    show ?thesis
      using r len unfolding i t
      by (simp add: butlast_conv_take drop_Suc nth_tl)
  qed
  have l1: "length ?inp = length text"
    by (simp add: input_seq_of_def)
  have l2: "length ?tgt = length text"
    by (simp add: target_seq_of_def)
  have ints: "p_input_chars p = ?inp \<and> p_target_chars p = ?tgt
          \<and> length (p_input_seq p) = length text \<and> length (p_target_seq p) = length text
          \<and> (\<forall>r < length text.
                 length (p_input_seq p ! r) = maxlen - 1
               \<and> length (p_target_seq p ! r) = maxlen - 1
               \<and> (\<forall>i. i + 1 < length (p_input_seq p ! r) \<longrightarrow>
                      p_target_seq p ! r ! i = p_input_seq p ! r ! (i + 1)))"
    if prep: "prepare order text = Inr p" for order p
  proof -
    from prepare_InrD [OF prep] m p obtain enc where
      enc: "encode_seqs (build_vocab order) ?inp ?tgt = Inr enc"
      and pi: "p_input_chars p = ?inp" and pt: "p_target_chars p = ?tgt"
      and ii: "p_input_seq p = map fst enc" and ti: "p_target_seq p = map snd enc"
      by auto
    have len: "length ?inp = length ?tgt" using l1 l2 by simp
    have rows: "length (p_input_seq p ! r) = maxlen - 1
               \<and> length (p_target_seq p ! r) = maxlen - 1
               \<and> (\<forall>i. i + 1 < length (p_input_seq p ! r) \<longrightarrow>
                      p_target_seq p ! r ! i = p_input_seq p ! r ! (i + 1))"
      if r: "r < length text" for r
    proof -
      from r l1 have r': "r < length ?inp" by simp
      have li: "length (?inp ! r) = maxlen - 1" using row [OF r] by blast
      have lt: "length (?tgt ! r) = maxlen - 1" using row [OF r] by blast
      have shift: "\<forall>i. i + 1 < length (?inp ! r) \<longrightarrow> ?tgt ! r ! i = ?inp ! r ! (i + 1)"
        using row [OF r] by blast
      have same: "length (?tgt ! r) = length (?inp ! r)"
        using li lt by (simp only:)
      from encoded_shifted [OF enc len r' same shift] li r' ii ti
      show ?thesis by simp
    qed
    from map_err_Inr [OF enc [unfolded encode_seqs_def]] l1 l2
    have "length enc = length text" by simp
    with pi pt ii ti rows show ?thesis by simp
  qed
  from m p l1 l2 row ints show ?thesis by blast
qed

theorem sequence_records_shifted_witness:
  "notebook_text \<noteq> []
   \<and> (\<exists>maxlen padded. maxlen_of notebook_text = Inr maxlen \<and> pad notebook_text maxlen = Inr padded
        \<and> maxlen = 15
        \<and> input_seq_of padded = [''hey how are yo'', ''good i am fine'', ''have a nice da'']
        \<and> target_seq_of padded = [''ey how are you'', ''ood i am fine '', ''ave a nice day'']
        \<and> (\<forall>r < length notebook_text.
               length (input_seq_of padded ! r) = maxlen - 1
             \<and> length (target_seq_of padded ! r) = maxlen - 1
             \<and> (\<forall>i. i + 1 < length (input_seq_of padded ! r) \<longrightarrow>
                    target_seq_of padded ! r ! i = input_seq_of padded ! r ! (i + 1))))"
proof -
  have ne: "notebook_text \<noteq> []" by (simp add: notebook_text_def)
  have m: "maxlen_of notebook_text = Inr 15" by code_simp
  have p: "pad notebook_text 15 = Inr [''hey how are you'', ''good i am fine '', ''have a nice day'']"
    by code_simp
  have i: "input_seq_of [''hey how are you'', ''good i am fine '', ''have a nice day'']
             = [''hey how are yo'', ''good i am fine'', ''have a nice da'']"
    by code_simp
  have t: "target_seq_of [''hey how are you'', ''good i am fine '', ''have a nice day'']
             = [''ey how are you'', ''ood i am fine '', ''ave a nice day'']"
    by code_simp
  from sequence_records_shifted [OF ne] obtain maxlen padded where
    m': "maxlen_of notebook_text = Inr maxlen" and p': "pad notebook_text maxlen = Inr padded"
    and rows: "\<forall>r < length notebook_text.
               length (input_seq_of padded ! r) = maxlen - 1
             \<and> length (target_seq_of padded ! r) = maxlen - 1
             \<and> (\<forall>i. i + 1 < length (input_seq_of padded ! r) \<longrightarrow>
                    target_seq_of padded ! r ! i = input_seq_of padded ! r ! (i + 1))"
    by blast
  from m m' have mx: "maxlen = 15" by simp
  with p p' have pd: "padded = [''hey how are you'', ''good i am fine '', ''have a nice day'']"
    by simp
  from ne m' p' mx rows i t show ?thesis
    unfolding pd by blast
qed

subsection \<open>C7: the notebook's corpus\<close>

lemma map_err_total:
  "(\<forall>x \<in> set xs. \<exists>y. f x = Inr y) \<Longrightarrow> \<exists>ys. map_err f xs = Inr ys"
  by (induction xs) auto

lemma encode_chars_Inr:
  assumes "distinct order" and "set s \<subseteq> set order"
  shows "\<exists>ks. encode_chars (build_vocab order) s = Inr ks \<and> length ks = length s
              \<and> (\<forall>i < length s. \<exists>j < length order. order ! j = s ! i \<and> ks ! i = int j)
              \<and> (\<forall>k \<in> set ks. 0 \<le> k \<and> k < int (length order))"
proof -
  let ?g = "\<lambda>c. bind_err (dict_get (char2int (build_vocab order)) c) (\<lambda>k. Inr (int k))"
  have g: "\<exists>j < length order. order ! j = c \<and> ?g c = Inr (int j)" if "c \<in> set s" for c
  proof -
    from that assms(2) have "c \<in> set order" by blast
    from char2int_get_member [OF assms(1) this] obtain j where
      "j < length order" "order ! j = c" "dict_get (char2int (build_vocab order)) c = Inr j"
      by blast
    then show ?thesis by auto
  qed
  then have "\<forall>c \<in> set s. \<exists>y. ?g c = Inr y" by blast
  from map_err_total [OF this] obtain ks where ks: "map_err ?g s = Inr ks" by blast
  from map_err_Inr [OF ks] have l: "length ks = length s"
    and e: "\<forall>i < length s. ?g (s ! i) = Inr (ks ! i)" by simp_all
  have pos: "\<exists>j < length order. order ! j = s ! i \<and> ks ! i = int j" if i: "i < length s" for i
  proof -
    from i g [of "s ! i"] obtain j where "j < length order" "order ! j = s ! i"
      "?g (s ! i) = Inr (int j)" by auto
    moreover from e i have "?g (s ! i) = Inr (ks ! i)" by blast
    ultimately show ?thesis by auto
  qed
  have "0 \<le> k \<and> k < int (length order)" if "k \<in> set ks" for k
  proof -
    from that l obtain i where "i < length s" "ks ! i = k"
      by (auto simp: in_set_conv_nth)
    with pos [of i] show ?thesis by auto
  qed
  with ks l pos show ?thesis by (auto simp: encode_chars_def)
qed

lemma encode_seqs_Inr:
  assumes "distinct order" and "length inp = length tgt"
    and "\<forall>s \<in> set inp. set s \<subseteq> set order" and "\<forall>s \<in> set tgt. set s \<subseteq> set order"
  shows "\<exists>enc. encode_seqs (build_vocab order) inp tgt = Inr enc \<and> length enc = length inp
     \<and> (\<forall>r < length inp. length (fst (enc ! r)) = length (inp ! r)
            \<and> (\<forall>u < length (inp ! r). \<exists>j < length order.
                   order ! j = inp ! r ! u \<and> fst (enc ! r) ! u = int j))"
proof -
  let ?v = "build_vocab order"
  let ?h = "\<lambda>(a, b). bind_err (encode_chars ?v a) (\<lambda>x.
                        bind_err (encode_chars ?v b) (\<lambda>y. Inr (x, y)))"
  have h: "\<exists>x y. ?h (inp ! r, tgt ! r) = Inr (x, y) \<and> length x = length (inp ! r)
              \<and> (\<forall>u < length (inp ! r). \<exists>j < length order.
                    order ! j = inp ! r ! u \<and> x ! u = int j)"
    if "r < length inp" for r
  proof -
    from that assms(2,3,4) have "set (inp ! r) \<subseteq> set order" "set (tgt ! r) \<subseteq> set order"
      by simp_all
    from encode_chars_Inr [OF assms(1) this(1)] encode_chars_Inr [OF assms(1) this(2)]
    show ?thesis by auto
  qed
  have "\<forall>p \<in> set (zip inp tgt). \<exists>y. ?h p = Inr y"
  proof
    fix p assume "p \<in> set (zip inp tgt)"
    then obtain r where "r < length inp" "p = (inp ! r, tgt ! r)"
      using assms(2) by (auto simp: in_set_zip)
    with h [of r] show "\<exists>y. ?h p = Inr y" by auto
  qed
  from map_err_total [OF this] obtain enc where enc: "map_err ?h (zip inp tgt) = Inr enc"
    by blast
  from map_err_Inr [OF enc] assms(2) have l: "length enc = length inp"
    and e: "\<forall>r < length inp. ?h (inp ! r, tgt ! r) = Inr (enc ! r)"
    by simp_all
  have "length (fst (enc ! r)) = length (inp ! r)
            \<and> (\<forall>u < length (inp ! r). \<exists>j < length order.
                   order ! j = inp ! r ! u \<and> fst (enc ! r) ! u = int j)"
    if "r < length inp" for r
    using h [OF that] e that by auto
  with enc l show ?thesis by (auto simp: encode_seqs_def)
qed

text \<open>
  Claim C7. For the corpus \<open>["hey how are you", "good i am fine", "have a nice day"]\<close>,
  whatever the order in which Python iterates its character set: \<open>maxlen = 15\<close>, the
  preparation returns, \<open>seq_len = 14\<close>, \<open>batch_size = 3\<close>, \<open>dict_size = 17\<close> (the number of
  distinct characters). The input sequences are three sequences of 14 indices below 17, the
  indices of the characters of the padded sentences without their last character. The
  feature array is what \<open>one_hot_encode\<close> returns for these input sequences; it has shape
  \<open>(3, 14, 17)\<close>, that is 3 rows of 14 slices of 17 entries, and every slice is one-hot, with
  its 1 at the index of the input sequence.
\<close>

theorem notebook_scenario:
  assumes "iteration_of (chars_of notebook_text) order"
  shows "maxlen_of notebook_text = Inr 15
       \<and> dict_size (build_vocab order) = 17
       \<and> (\<exists>p. prepare order notebook_text = Inr p
              \<and> p_seq_len p = 14 \<and> p_batch_size p = 3 \<and> p_dict_size p = 17
              \<and> p_input_chars p = [''hey how are yo'', ''good i am fine'', ''have a nice da'']
              \<and> length (p_input_seq p) = 3
              \<and> (\<forall>r < 3. length (p_input_seq p ! r) = 14
                    \<and> (\<forall>u < 14. 0 \<le> p_input_seq p ! r ! u \<and> p_input_seq p ! r ! u < 17
                          \<and> dict_get (int2char (p_vocab p)) (nat (p_input_seq p ! r ! u))
                              = Inr (p_input_chars p ! r ! u)))
              \<and> one_hot_encode (p_input_seq p) 17 14 3 = Inr (p_features p)
              \<and> shape (p_features p) = (3, 14, 17)
              \<and> length (cells (p_features p)) = 3
              \<and> (\<forall>r < 3. length (cells (p_features p) ! r) = 14
                    \<and> (\<forall>u < 14. length (cells (p_features p) ! r ! u) = 17
                          \<and> is_one_hot (cells (p_features p) ! r ! u)
                          \<and> cells (p_features p) ! r ! u ! nat (p_input_seq p ! r ! u) = 1)))"
proof -
  let ?padded = "[''hey how are you'', ''good i am fine '', ''have a nice day'']"
  let ?inp = "[''hey how are yo'', ''good i am fine'', ''have a nice da'']"
  let ?tgt = "[''ey how are you'', ''ood i am fine '', ''ave a nice day'']"
  let ?v = "build_vocab order"
  from assms have d: "distinct order" and s: "set order = chars_of notebook_text"
    by (simp_all add: iteration_of_def)
  have m: "maxlen_of notebook_text = Inr 15" by code_simp
  have p: "pad notebook_text 15 = Inr ?padded" by code_simp
  have i: "input_seq_of ?padded = ?inp" by code_simp
  have t: "target_seq_of ?padded = ?tgt" by code_simp
  have "card (chars_of notebook_text) = 17" by code_simp
  with d s have n: "length order = 17" using distinct_card by fastforce
  then have dsz: "dict_size ?v = 17" using d by (simp add: dict_size_build)
  have "\<forall>s \<in> set ?inp. set s \<subseteq> chars_of notebook_text" by code_simp
  then have ci: "\<forall>s \<in> set ?inp. set s \<subseteq> set order" using s by simp
  have "\<forall>s \<in> set ?tgt. set s \<subseteq> chars_of notebook_text" by code_simp
  then have ct: "\<forall>s \<in> set ?tgt. set s \<subseteq> set order" using s by simp
  have "length ?inp = length ?tgt" by simp
  from encode_seqs_Inr [OF d this ci ct] obtain enc where
    enc: "encode_seqs ?v ?inp ?tgt = Inr enc" and le': "length enc = length ?inp"
    and rows': "\<forall>r < length ?inp. length (fst (enc ! r)) = length (?inp ! r)
            \<and> (\<forall>u < length (?inp ! r). \<exists>j < length order.
                   order ! j = ?inp ! r ! u \<and> fst (enc ! r) ! u = int j)"
    by blast
  let ?seq = "map fst enc"
  from le' have le: "length enc = 3" by simp
  have l14: "length (?inp ! r) = 14" if "r < 3" for r
    using that by (auto simp: less_Suc_eq numeral_3_eq_3)
  have row: "length (?seq ! r) = 14
           \<and> (\<forall>u < 14. 0 \<le> ?seq ! r ! u \<and> ?seq ! r ! u < 17
                 \<and> dict_get (int2char ?v) (nat (?seq ! r ! u)) = Inr (?inp ! r ! u))"
    if r: "r < 3" for r
  proof -
    from r have r': "r < length ?inp" by simp
    from rows' r' have len: "length (fst (enc ! r)) = length (?inp ! r)"
      and pos: "\<forall>u < length (?inp ! r). \<exists>j < length order.
                   order ! j = ?inp ! r ! u \<and> fst (enc ! r) ! u = int j"
      by blast+
    have "0 \<le> fst (enc ! r) ! u \<and> fst (enc ! r) ! u < 17
          \<and> dict_get (int2char ?v) (nat (fst (enc ! r) ! u)) = Inr (?inp ! r ! u)"
      if u: "u < 14" for u
    proof -
      from u l14 [OF r] have "u < length (?inp ! r)" by simp
      with pos obtain j where j: "j < length order" "order ! j = ?inp ! r ! u"
        "fst (enc ! r) ! u = int j" by blast
      then have "dict_get (int2char ?v) j = Inr (?inp ! r ! u)"
        by (simp add: int2char_get)
      with j n show ?thesis by simp
    qed
    with len l14 [OF r] r le show ?thesis by simp
  qed
  have ok: "visited_ok ?seq 17 r u" if r: "r < 3" and u: "u < 14" for r u
  proof -
    from row [OF r] u have "length (?seq ! r) = 14" "0 \<le> ?seq ! r ! u" "?seq ! r ! u < 17"
      by blast+
    with r u le show ?thesis by (simp add: visited_ok_def)
  qed
  have sz: "np_nbytes 3 14 17 < 2 ^ 63" by (simp add: np_nbytes_def)
  from ok sz have "\<exists>f. one_hot_encode ?seq 17 14 3 = Inr f"
    by (simp add: one_hot_encode_Inr_iff)
  then obtain f where f: "one_hot_encode ?seq 17 14 3 = Inr f" by blast
  from one_hot_encode_InrD [OF f] have sh: "shape f = (3, 14, 17)"
    and cl: "cells f = map (\<lambda>i. map (\<lambda>u. one_hot 17 (?seq ! i ! u)) [0..<14]) [0..<3]"
    by simp_all
  have slice: "length (cells f ! r) = 14
             \<and> (\<forall>u < 14. length (cells f ! r ! u) = 17 \<and> is_one_hot (cells f ! r ! u)
                   \<and> cells f ! r ! u ! nat (?seq ! r ! u) = 1)"
    if r: "r < 3" for r
  proof -
    have "length (cells f ! r ! u) = 17 \<and> is_one_hot (cells f ! r ! u)
           \<and> cells f ! r ! u ! nat (?seq ! r ! u) = 1" if u: "u < 14" for u
    proof -
      from cl r u have c: "cells f ! r ! u = one_hot 17 (?seq ! r ! u)" by simp
      from row [OF r] u have "0 \<le> ?seq ! r ! u" "?seq ! r ! u < 17" by blast+
      then have "- int 17 \<le> ?seq ! r ! u" "?seq ! r ! u < int 17" "0 \<le> ?seq ! r ! u"
        by simp_all
      from one_hot_slot [OF this(1,2)] this(3) c show ?thesis by simp
    qed
    moreover from cl r have "length (cells f ! r) = 14" by simp
    ultimately show ?thesis by blast
  qed
  from cl have c3: "length (cells f) = 3" by simp
  let ?p = "\<lparr>p_vocab = ?v, p_text = ?padded, p_input_chars = ?inp, p_target_chars = ?tgt,
               p_input_seq = ?seq, p_target_seq = map snd enc,
               p_dict_size = 17, p_seq_len = 14, p_batch_size = 3, p_features = f\<rparr>"
  have prep: "prepare order notebook_text = Inr ?p"
    using m p i t enc dsz f by (simp add: prepare_def Let_def)
  have "p_seq_len ?p = 14 \<and> p_batch_size ?p = 3 \<and> p_dict_size ?p = 17
      \<and> p_input_chars ?p = ?inp
      \<and> length (p_input_seq ?p) = 3
      \<and> (\<forall>r < 3. length (p_input_seq ?p ! r) = 14
            \<and> (\<forall>u < 14. 0 \<le> p_input_seq ?p ! r ! u \<and> p_input_seq ?p ! r ! u < 17
                  \<and> dict_get (int2char (p_vocab ?p)) (nat (p_input_seq ?p ! r ! u))
                      = Inr (p_input_chars ?p ! r ! u)))
      \<and> one_hot_encode (p_input_seq ?p) 17 14 3 = Inr (p_features ?p)
      \<and> shape (p_features ?p) = (3, 14, 17)
      \<and> length (cells (p_features ?p)) = 3
      \<and> (\<forall>r < 3. length (cells (p_features ?p) ! r) = 14
            \<and> (\<forall>u < 14. length (cells (p_features ?p) ! r ! u) = 17
                  \<and> is_one_hot (cells (p_features ?p) ! r ! u)
                  \<and> cells (p_features ?p) ! r ! u ! nat (p_input_seq ?p ! r ! u) = 1))"
    using le row f sh c3 slice by simp
  with prep m dsz show ?thesis by blast
qed

theorem notebook_scenario_witness:
  "iteration_of (chars_of notebook_text) notebook_order
   \<and> maxlen_of notebook_text = Inr 15
   \<and> dict_size (build_vocab notebook_order) = 17
   \<and> (\<exists>p. prepare notebook_order notebook_text = Inr p
          \<and> p_seq_len p = 14 \<and> p_batch_size p = 3 \<and> p_dict_size p = 17
          \<and> shape (p_features p) = (3, 14, 17)
          \<and> p_input_seq p = [[6, 8, 14, 16, 6, 4, 1, 16, 13, 11, 8, 16, 14, 4],
                             [15, 4, 4, 3, 16, 10, 16, 13, 7, 16, 0, 10, 12, 8],
                             [6, 13, 9, 8, 16, 13, 16, 12, 10, 5, 8, 16, 3, 13]]
          \<and> p_target_seq p = [[8, 14, 16, 6, 4, 1, 16, 13, 11, 8, 16, 14, 4, 2],
                              [4, 4, 3, 16, 10, 16, 13, 7, 16, 0, 10, 12, 8, 16],
                              [13, 9, 8, 16, 13, 16, 12, 10, 5, 8, 16, 3, 13, 14]]
          \<and> is_one_hot (cells (p_features p) ! 0 ! 0)
          \<and> cells (p_features p) ! 0 ! 0 = [0, 0, 0, 0, 0, 0, 1, 0, 0, 0, 0, 0, 0, 0, 0, 0, 0])"
proof -
  let ?seq = "[[6, 8, 14, 16, 6, 4, 1, 16, 13, 11, 8, 16, 14, 4],
               [15, 4, 4, 3, 16, 10, 16, 13, 7, 16, 0, 10, 12, 8],
               [6, 13, 9, 8, 16, 13, 16, 12, 10, 5, 8, 16, 3, 13 :: int]]"
  let ?tseq = "[[8, 14, 16, 6, 4, 1, 16, 13, 11, 8, 16, 14, 4, 2],
                [4, 4, 3, 16, 10, 16, 13, 7, 16, 0, 10, 12, 8, 16],
                [13, 9, 8, 16, 13, 16, 12, 10, 5, 8, 16, 3, 13, 14 :: int]]"
  have it: "iteration_of (chars_of notebook_text) notebook_order"
    by code_simp
  have m: "maxlen_of notebook_text = Inr 15" by code_simp
  have pd: "pad notebook_text 15
      = Inr [''hey how are you'', ''good i am fine '', ''have a nice day'']" by code_simp
  have enc: "encode_seqs (build_vocab notebook_order)
        (input_seq_of [''hey how are you'', ''good i am fine '', ''have a nice day''])
        (target_seq_of [''hey how are you'', ''good i am fine '', ''have a nice day''])
      = Inr (zip ?seq ?tseq)"
    by code_simp
  have slice: "map_sum id (\<lambda>f. cells f ! 0 ! 0) (one_hot_encode ?seq 17 14 3)
      = Inr [0, 0, 0, 0, 0, 0, 1, 0, 0, 0, 0, 0, 0, 0, 0, 0, 0]"
    by code_simp
  from notebook_scenario [OF it] obtain p where
    p: "prepare notebook_order notebook_text = Inr p"
    and dims: "p_seq_len p = 14 \<and> p_batch_size p = 3 \<and> p_dict_size p = 17"
    and f: "one_hot_encode (p_input_seq p) 17 14 3 = Inr (p_features p)"
    and sh: "shape (p_features p) = (3, 14, 17)"
    and hot: "\<forall>r < 3. length (cells (p_features p) ! r) = 14
                    \<and> (\<forall>u < 14. length (cells (p_features p) ! r ! u) = 17
                          \<and> is_one_hot (cells (p_features p) ! r ! u)
                          \<and> cells (p_features p) ! r ! u ! nat (p_input_seq p ! r ! u) = 1)"
    and sz: "dict_size (build_vocab notebook_order) = 17"
    by blast
  from prepare_InrD [OF p] m pd enc
  have si: "p_input_seq p = ?seq" and st: "p_target_seq p = ?tseq" by auto
  from hot have h0: "is_one_hot (cells (p_features p) ! 0 ! 0)" by simp
  from slice f si have c0: "cells (p_features p) ! 0 ! 0
      = [0, 0, 0, 0, 0, 0, 1, 0, 0, 0, 0, 0, 0, 0, 0, 0, 0]"
    by simp
  from it m sz p dims sh si st h0 c0 show ?thesis by blast
qed

subsection \<open>What \<open>predict\<close> and \<open>sample\<close> compute\<close>

lemma lower_char_idem: "lower_char (lower_char c) = lower_char c"
proof -
  have "of_char (char_of (n + 32) :: char) = n + 32" if "n \<le> 222" for n :: nat
    using that by simp
  then show ?thesis
    by (auto simp: lower_char_def Let_def)
qed

lemma lower_idem: "lower (lower s) = lower s"
  by (simp add: lower_def lower_char_idem)




lemma predict_size:
  assumes "character \<noteq> []" and "set character \<subseteq> set order"
    and "4 * int (length character) * int (length order) < 2 ^ 63"
  shows "np_nbytes 1 (int (length character)) (int (length order)) < 2 ^ 63"
proof -
  from assms(1,2) have "order \<noteq> []" by auto
  with assms(1,3) show ?thesis by (simp add: np_nbytes_def)
qed

lemma predict_ok:
  assumes d: "distinct order" and ne: "character \<noteq> []" and sub: "set character \<subseteq> set order"
    and m: "\<forall>x. m x < length order"
    and size: "4 * int (length character) * int (length order) < 2 ^ 63"
  shows "\<exists>c \<in> set order. predict (build_vocab order) m character = Inr c"
proof -
  let ?v = "build_vocab order"
  from encode_chars_Inr [OF d sub] obtain ks where
    ks: "encode_chars ?v character = Inr ks" and l: "length ks = length character"
    and r: "\<forall>k \<in> set ks. 0 \<le> k \<and> k < int (length order)"
    by blast
  have "visited_ok [ks] (length order) i u" if "i < 1" "u < length ks" for i u
  proof -
    from that(2) have "ks ! u \<in> set ks" by simp
    with r have "0 \<le> ks ! u \<and> ks ! u < int (length order)" by blast
    with that show ?thesis by (simp add: visited_ok_def)
  qed
  with predict_size [OF ne sub size] l
  have "\<exists>f. one_hot_encode [ks] (int (length order)) (int (length ks)) 1 = Inr f"
    by (simp add: one_hot_encode_Inr_iff)
  then obtain f where f: "one_hot_encode [ks] (int (length order)) (int (length ks)) 1 = Inr f"
    by blast
  from one_hot_encode_InrD [OF f] have "shape f = (1, length ks, length order)" by simp
  with l ne have ci: "char_ind_of m f = Inr (m f)" by (simp add: char_ind_of_def)
  from m have "dict_get (int2char ?v) (m f) = Inr (order ! m f)" "order ! m f \<in> set order"
    by (simp_all add: int2char_get)
  with ks f ci d show ?thesis
    by (simp add: predict_def dict_size_build)
qed

lemma predict_not_KeyError:
  assumes d: "distinct order" and m: "\<forall>x. m x < length order"
    and sub: "set character \<subseteq> set order"
  shows "predict (build_vocab order) m character \<noteq> Inl KeyError
       \<and> (\<forall>c. predict (build_vocab order) m character = Inr c \<longrightarrow> c \<in> set order)"
proof -
  let ?v = "build_vocab order"
  from encode_chars_Inr [OF d sub] obtain ks where
    ks: "encode_chars ?v character = Inr ks" by blast
  show ?thesis
  proof (cases "one_hot_encode [ks] (int (length order)) (int (length ks)) 1")
    case (Inl e)
    from one_hot_encode_InlD [OF this] have "e \<noteq> KeyError" by auto
    with ks Inl d show ?thesis by (simp add: predict_def dict_size_build)
  next
    case (Inr f)
    from m have look: "dict_get (int2char ?v) (m f) = Inr (order ! m f)"
      and mem: "order ! m f \<in> set order"
      by (simp_all add: int2char_get)
    have "char_ind_of m f = Inl EmptySequenceError \<or> char_ind_of m f = Inr (m f)"
      by (auto simp: char_ind_of_def split: prod.splits)
    then show ?thesis
    proof
      assume "char_ind_of m f = Inl EmptySequenceError"
      with ks Inr d show ?thesis by (simp add: predict_def dict_size_build)
    next
      assume "char_ind_of m f = Inr (m f)"
      with ks Inr d look mem show ?thesis by (simp add: predict_def dict_size_build)
    qed
  qed
qed

lemma sample_loop_ok:
  assumes d: "distinct order" and m: "\<forall>x. m x < length order"
  shows "chars \<noteq> [] \<Longrightarrow> set chars \<subseteq> set order \<Longrightarrow>
         4 * int (length chars + length xs) * int (length order) < 2 ^ 63 \<Longrightarrow>
         \<exists>suffix. for_each xs (\<lambda>ii chars. bind_err (predict (build_vocab order) m chars)
                                   (\<lambda>char. Inr (chars @ [char]))) chars
                    = Inr (chars @ suffix)
                 \<and> length suffix = length xs \<and> set suffix \<subseteq> set order"
proof (induction xs arbitrary: chars)
  case Nil
  then show ?case by simp
next
  case (Cons x xs)
  define A B where "A = int (length chars) * int (length order)"
    and "B = int (length chars + length (x # xs)) * int (length order)"
  have "A \<le> B" unfolding A_def B_def by (intro mult_right_mono) simp_all
  moreover from Cons.prems(3) have "4 * B < 2 ^ 63"
    unfolding B_def by (simp only: mult.assoc)
  ultimately have "4 * A < 2 ^ 63" by linarith
  then have "4 * int (length chars) * int (length order) < 2 ^ 63"
    unfolding A_def by (simp only: mult.assoc)
  from predict_ok [OF d Cons.prems(1) Cons.prems(2) m this] obtain c where
    c: "c \<in> set order" "predict (build_vocab order) m chars = Inr c" by blast
  have "chars @ [c] \<noteq> []" by simp
  moreover have "set (chars @ [c]) \<subseteq> set order" using Cons.prems(2) c(1) by simp
  moreover have "4 * int (length (chars @ [c]) + length xs) * int (length order) < 2 ^ 63"
    using Cons.prems(3) by simp
  ultimately obtain suffix where
    s: "for_each xs (\<lambda>ii chars. bind_err (predict (build_vocab order) m chars)
                                   (\<lambda>char. Inr (chars @ [char]))) (chars @ [c])
          = Inr ((chars @ [c]) @ suffix)"
       "length suffix = length xs" "set suffix \<subseteq> set order"
    using Cons.IH by blast
  show ?case
    using c s by (intro exI [of _ "c # suffix"]) simp
qed

lemma sample_loop_not_KeyError:
  assumes d: "distinct order" and m: "\<forall>x. m x < length order"
  shows "set chars \<subseteq> set order \<Longrightarrow>
         for_each xs (\<lambda>ii chars. bind_err (predict (build_vocab order) m chars)
                        (\<lambda>char. Inr (chars @ [char]))) chars \<noteq> Inl KeyError"
proof (induction xs arbitrary: chars)
  case Nil
  then show ?case by simp
next
  case (Cons x xs)
  note p = predict_not_KeyError [OF d m Cons.prems]
  show ?case
  proof (cases "predict (build_vocab order) m chars")
    case (Inl e)
    with p show ?thesis by simp
  next
    case (Inr c)
    with p have "c \<in> set order" by blast
    with Cons.prems have "set (chars @ [c]) \<subseteq> set order" by simp
    from Cons.IH [OF this] Inr show ?thesis by simp
  qed
qed

lemma sample_ok:
  assumes d: "distinct order" and m: "\<forall>x. m x < length order"
    and sub: "set (lower start) \<subseteq> set order"
    and ne: "lower start \<noteq> [] \<or> out_len \<le> int (length (lower start))"
    and size: "4 * max (int (length (lower start))) out_len * int (length order) < 2 ^ 63"
  shows "\<exists>suffix. sample (build_vocab order) m out_len start = Inr (lower start @ suffix)
           \<and> length suffix = nat (out_len - int (length (lower start)))
           \<and> set suffix \<subseteq> set order"
proof (cases "lower start = []")
  case True
  with ne have "nat (out_len - int (length (lower start))) = 0" by simp
  then show ?thesis
    by (simp add: sample_def Let_def py_range_def)
next
  case False
  let ?xs = "py_range (out_len - int (length (lower start)))"
  have "int (length (lower start) + length ?xs) = max (int (length (lower start))) out_len"
    by (simp add: py_range_def)
  with size have "4 * int (length (lower start) + length ?xs) * int (length order) < 2 ^ 63"
    by (simp only:)
  from sample_loop_ok [OF d m False sub this]
  show ?thesis
    by (simp add: sample_def Let_def py_range_def)
qed

lemma sample_loop_prefix:
  "for_each xs (\<lambda>ii chars. bind_err (predict v m chars) (\<lambda>char. Inr (chars @ [char]))) chars
     = Inr result \<Longrightarrow> \<exists>suffix. result = chars @ suffix \<and> length suffix = length xs"
proof (induction xs arbitrary: chars)
  case Nil
  then show ?case by simp
next
  case (Cons x xs)
  from Cons.prems obtain c where c: "predict v m chars = Inr c"
    and rest: "for_each xs (\<lambda>ii chars. bind_err (predict v m chars)
                 (\<lambda>char. Inr (chars @ [char]))) (chars @ [c]) = Inr result"
    by (auto simp: bind_err_def split: sum.splits)
  from Cons.IH [OF rest] obtain suffix where "result = (chars @ [c]) @ suffix" "length suffix = length xs"
    by blast
  then show ?case by (intro exI [of _ "c # suffix"]) simp
qed

subsection \<open>C8: the length of the sampled text\<close>

text \<open>
  Claim C8 says that every call of \<open>sample\<close> whose seed characters are all in the
  vocabulary appends exactly \<open>out_len - len(start)\<close> characters. Two calls show otherwise.
  \<open>sample\<close> looks up the lowercased seed, so with the corpus \<open>["Hey you"]\<close> the seed
  \<open>"Hey"\<close>, whose characters are all in the vocabulary, fails with a KeyError for \<open>"h"\<close>. And
  an empty seed,
  whose characters are trivially all in the vocabulary, gives the network a sequence of
  zero time steps, on which the first prediction fails.
\<close>

theorem sample_seed_counterexample:
  "iteration_of (chars_of [''Hey you'']) ''Hey ou'' \<and> set ''Hey'' \<subseteq> chars_of [''Hey you'']
   \<and> sample (build_vocab ''Hey ou'') (\<lambda>x. 0) 7 ''Hey'' = Inl KeyError
   \<and> sample (build_vocab notebook_order) (\<lambda>x. 0) 1 '''' = Inl EmptySequenceError"
  by code_simp

text \<open>
  Claim C8 as amended. Take the vocabulary of any corpus and a network whose chosen index
  is always below \<open>dict_size\<close>. For every call of \<open>sample\<close> whose lowercased seed
  \<open>start.lower()\<close> has all its characters in the vocabulary and is not empty (or
  \<open>out_len \<le> len(start.lower())\<close>, so that nothing is predicted), with feature arrays
  within numpy's size limit (\<open>4 * max(len(start.lower()), out_len) * dict_size < 2^63\<close>), the
  loop ends after appending exactly \<open>max(0, out_len - len(start.lower()))\<close> characters of the
  vocabulary to the lowercased seed; so the returned text has length exactly \<open>out_len\<close>
  whenever \<open>len(start.lower()) \<le> out_len\<close>.
\<close>

theorem sample_length:
  assumes "iteration_of (chars_of corpus) order" and "v = build_vocab order"
    and "\<forall>x. m x < dict_size v"
    and "set (lower start) \<subseteq> chars_of corpus"
    and "lower start \<noteq> [] \<or> out_len \<le> int (length (lower start))"
    and "4 * max (int (length (lower start))) out_len * int (dict_size v) < 2 ^ 63"
  shows "\<exists>suffix. sample v m out_len start = Inr (lower start @ suffix)
           \<and> int (length suffix) = max 0 (out_len - int (length (lower start)))
           \<and> set suffix \<subseteq> chars_of corpus
           \<and> (int (length (lower start)) \<le> out_len
                \<longrightarrow> int (length (lower start @ suffix)) = out_len)"
proof -
  from assms(1) have d: "distinct order" and s: "set order = chars_of corpus"
    by (simp_all add: iteration_of_def)
  from assms(2,3) d have m: "\<forall>x. m x < length order" by (simp add: dict_size_build)
  from assms(4) s have sub: "set (lower start) \<subseteq> set order" by simp
  from assms(2,6) d
  have size: "4 * max (int (length (lower start))) out_len * int (length order) < 2 ^ 63"
    by (simp add: dict_size_build)
  from sample_ok [OF d m sub assms(5) size] obtain suffix where
    r: "sample (build_vocab order) m out_len start = Inr (lower start @ suffix)"
    and l: "length suffix = nat (out_len - int (length (lower start)))"
    and c: "set suffix \<subseteq> set order"
    by blast
  from l have "int (length suffix) = max 0 (out_len - int (length (lower start)))" by simp
  moreover from l have "int (length (lower start)) \<le> out_len
      \<longrightarrow> int (length (lower start @ suffix)) = out_len"
    by simp
  ultimately show ?thesis using r c s assms(2) by blast
qed

theorem sample_length_witness:
  "iteration_of (chars_of notebook_text) notebook_order
   \<and> (\<forall>x. (\<lambda>x. 16) x < dict_size (build_vocab notebook_order))
   \<and> set (lower ''Good'') \<subseteq> chars_of notebook_text
   \<and> lower ''Good'' \<noteq> []
   \<and> (\<exists>suffix. sample (build_vocab notebook_order) (\<lambda>x. 16) 15 ''Good'' = Inr (lower ''Good'' @ suffix)
         \<and> int (length suffix) = 11
         \<and> int (length (lower ''Good'' @ suffix)) = 15)
   \<and> sample (build_vocab notebook_order) (\<lambda>x. 16) 15 ''Good'' = Inr ''good           ''"
proof -
  have it: "iteration_of (chars_of notebook_text) notebook_order" by code_simp
  have sz: "dict_size (build_vocab notebook_order) = 17" by code_simp
  have m: "\<forall>x. (\<lambda>x. 16) x < dict_size (build_vocab notebook_order)"
    using sz by simp
  have sub: "set (lower ''Good'') \<subseteq> chars_of notebook_text" by code_simp
  have lw: "lower ''Good'' = ''good''" by code_simp
  have ne: "lower ''Good'' \<noteq> [] \<or> (15::int) \<le> int (length (lower ''Good''))"
    using lw by simp
  have size: "4 * max (int (length (lower ''Good''))) 15
                * int (dict_size (build_vocab notebook_order)) < 2 ^ 63"
    using lw sz by simp
  have ev: "sample (build_vocab notebook_order) (\<lambda>x. 16) 15 ''Good'' = Inr ''good           ''"
    by code_simp
  from sample_length [OF it refl m sub ne size]
  obtain suffix where
    r: "sample (build_vocab notebook_order) (\<lambda>x. 16) 15 ''Good'' = Inr (lower ''Good'' @ suffix)"
    and l: "int (length suffix) = max 0 (15 - int (length (lower ''Good'')))"
    and t: "int (length (lower ''Good'')) \<le> 15 \<longrightarrow> int (length (lower ''Good'' @ suffix)) = 15"
    by blast
  from l lw have l': "int (length suffix) = 11" by simp
  from t lw have t': "int (length (lower ''Good'' @ suffix)) = 15" by simp
  from lw have ne': "lower ''Good'' \<noteq> []" by simp
  from r l' t' have "\<exists>suffix. sample (build_vocab notebook_order) (\<lambda>x. 16) 15 ''Good''
         = Inr (lower ''Good'' @ suffix)
         \<and> int (length suffix) = 11
         \<and> int (length (lower ''Good'' @ suffix)) = 15"
    by blast
  with it m sub ne' ev show ?thesis by simp
qed

subsection \<open>C9: a character that is not in the vocabulary\<close>



subsection \<open>C10: \<open>sample\<close> lowercases its seed\<close>

text \<open>
  Claim C10. \<open>sample\<close> gives the same result (text or exception) for a seed and for the
  lowercased seed; every text it returns begins with the lowercased seed; and consequently,
  with the vocabulary of a corpus and a network whose chosen index is below \<open>dict_size\<close>, a
  seed whose lowercased characters are all in the vocabulary raises no KeyError, even if the
  seed itself holds capitals that the vocabulary lacks.
\<close>

theorem sample_lowercases:
  "sample v m out_len start = sample v m out_len (lower start)
   \<and> (\<forall>result. sample v m out_len start = Inr result \<longrightarrow>
          (\<exists>suffix. result = lower start @ suffix))
   \<and> (iteration_of (chars_of corpus) order \<and> v = build_vocab order
        \<and> (\<forall>x. m x < dict_size v) \<and> set (lower start) \<subseteq> chars_of corpus
      \<longrightarrow> sample v m out_len start \<noteq> Inl KeyError)"
proof (intro conjI allI impI)
  show "sample v m out_len start = sample v m out_len (lower start)"
    by (simp add: sample_def Let_def lower_idem)
next
  fix result assume "sample v m out_len start = Inr result"
  then show "\<exists>suffix. result = lower start @ suffix"
    using sample_loop_prefix [of "py_range (out_len - int (length (lower start)))" v m "lower start" result]
    by (auto simp: sample_def Let_def)
next
  assume a: "iteration_of (chars_of corpus) order \<and> v = build_vocab order
        \<and> (\<forall>x. m x < dict_size v) \<and> set (lower start) \<subseteq> chars_of corpus"
  then have d: "distinct order" and s: "set order = chars_of corpus"
    by (simp_all add: iteration_of_def)
  from a have v: "v = build_vocab order" and mv: "\<forall>x. m x < dict_size v" by blast+
  from mv have m: "\<forall>x. m x < length order" unfolding v dict_size_build [OF d] .
  from a s have sub: "set (lower start) \<subseteq> set order" by simp
  from sample_loop_not_KeyError [OF d m sub,
      of "py_range (out_len - int (length (lower start)))"] v
  show "sample v m out_len start \<noteq> Inl KeyError"
    by (simp add: sample_def Let_def)
qed

theorem sample_lowercases_witness:
  "iteration_of (chars_of notebook_text) notebook_order
   \<and> (\<forall>x. (\<lambda>x. 16) x < dict_size (build_vocab notebook_order))
   \<and> set (lower ''Good'') \<subseteq> chars_of notebook_text
   \<and> CHR ''G'' \<notin> chars_of notebook_text
   \<and> sample (build_vocab notebook_order) (\<lambda>x. 16) 6 ''Good''
       = sample (build_vocab notebook_order) (\<lambda>x. 16) 6 (lower ''Good'')
   \<and> sample (build_vocab notebook_order) (\<lambda>x. 16) 6 ''Good'' \<noteq> Inl KeyError
   \<and> sample (build_vocab notebook_order) (\<lambda>x. 16) 6 ''Good'' = Inr ''good  ''
   \<and> (\<exists>suffix. ''good  '' = lower ''Good'' @ suffix)"
proof -
  have it: "iteration_of (chars_of notebook_text) notebook_order" by code_simp
  have m: "\<forall>x. (\<lambda>x. 16) x < dict_size (build_vocab notebook_order)"
  proof -
    have "dict_size (build_vocab notebook_order) = 17" by code_simp
    then show ?thesis by simp
  qed
  have sub: "set (lower ''Good'') \<subseteq> chars_of notebook_text" by code_simp
  have g: "CHR ''G'' \<notin> chars_of notebook_text" by code_simp
  have ev: "sample (build_vocab notebook_order) (\<lambda>x. 16) 6 ''Good'' = Inr ''good  ''"
    by code_simp
  note inst = sample_lowercases [of "build_vocab notebook_order" "\<lambda>x. 16" 6 "''Good''"
      notebook_text notebook_order]
  from inst have eq: "sample (build_vocab notebook_order) (\<lambda>x. 16) 6 ''Good''
       = sample (build_vocab notebook_order) (\<lambda>x. 16) 6 (lower ''Good'')"
    by blast
  from inst it m sub have nk: "sample (build_vocab notebook_order) (\<lambda>x. 16) 6 ''Good'' \<noteq> Inl KeyError"
    by blast
  from inst ev have pre: "\<exists>suffix. ''good  '' = lower ''Good'' @ suffix"
    by blast
  from it m sub g eq nk ev pre show ?thesis by blast
qed

end
